theory Spec2Isabelle
  imports Main "HOL-Library.Word" "HOL-Library.List_Lexorder" "HOL-Library.Multiset"
begin

section \<open>Bytes, C strings and the character classes of ctype.h\<close>

text \<open>
  A C string is modelled by the list of its bytes. The end of the list stands for the
  terminating NUL; a NUL byte inside a list terminates the string as well, as it does in
  memory, so every function below reads a list exactly as the C code reads the buffer.
  \<open>byte c\<close> is the value of \<open>(unsigned char)c\<close>, and \<open>deref p\<close> is \<open>*p\<close> for a
  pointer \<open>p\<close> into a string whose remaining bytes are the list \<open>p\<close>.
\<close>

definition byte :: "char \<Rightarrow> int" where
  "byte c = of_char c"

fun deref :: "string \<Rightarrow> int" where
  "deref [] = 0"
| "deref (c # p) = byte c"

text \<open>The bytes before the first NUL: what \<open>strlen\<close> counts and \<open>strcpy\<close> copies.\<close>

definition c_str :: "string \<Rightarrow> string" where
  "c_str s = takeWhile (\<lambda>c. byte c \<noteq> 0) s"

definition strlen :: "string \<Rightarrow> nat" where
  "strlen s = length (c_str s)"

definition strcpy :: "string \<Rightarrow> string" where
  "strcpy s = c_str s"

text \<open>
  \<open>tolower\<close>, \<open>isalpha\<close> and \<open>isspace\<close> of the C locale, on the values 0..255 of an
  unsigned char (the program never calls \<open>setlocale\<close>).
\<close>

definition tolower :: "int \<Rightarrow> int" where
  "tolower c = (if 65 \<le> c \<and> c \<le> 90 then c + 32 else c)"

definition isalpha :: "int \<Rightarrow> bool" where
  "isalpha c = ((65 \<le> c \<and> c \<le> 90) \<or> (97 \<le> c \<and> c \<le> 122))"

definition isspace :: "int \<Rightarrow> bool" where
  "isspace c = (c = 32 \<or> (9 \<le> c \<and> c \<le> 13))"

section \<open>Allocation\<close>

text \<open>
  \<open>malloc\<close> and \<open>realloc\<close> can fail. Every operation that allocates takes the outcomes
  of the allocation requests it makes, in order, as a list of booleans (\<open>True\<close>: the
  request is granted); a request made after the list is used up is granted. The list
  \<open>replicate n True\<close> is a run in which no request fails.

  An operation that writes into a block returns an option: \<open>None\<close> stands for a call
  that writes outside an allocated block, where the behaviour of the C program is
  undefined and the model says nothing more; \<open>Some\<close> carries what the call returns
  and the engine it leaves.
\<close>

fun alloc :: "bool list \<Rightarrow> bool \<times> bool list" where
  "alloc [] = (True, [])"
| "alloc (b # h) = (b, h)"

section \<open>Comparison and lookup\<close>

fun DictionaryComparator :: "string \<Rightarrow> string \<Rightarrow> int" where
  "DictionaryComparator (a # s1) (b # s2) =
     (if byte a \<noteq> 0 \<and> byte b \<noteq> 0 then
        (let c1 = tolower (byte a); c2 = tolower (byte b)
         in if c1 \<noteq> c2 then c1 - c2 else DictionaryComparator s1 s2)
      else tolower (byte a) - tolower (byte b))"
| "DictionaryComparator s1 s2 = tolower (deref s1) - tolower (deref s2)"

fun strcasecmp_custom :: "string \<Rightarrow> string \<Rightarrow> int" where
  "strcasecmp_custom (a # s1) (b # s2) =
     (if byte a \<noteq> 0 \<and> byte b \<noteq> 0 then
        (let c1 = tolower (byte a); c2 = tolower (byte b)
         in if c1 \<noteq> c2 then c1 - c2 else strcasecmp_custom s1 s2)
      else tolower (byte a) - tolower (byte b))"
| "strcasecmp_custom s1 s2 = tolower (deref s1) - tolower (deref s2)"

text \<open>
  Modelled from the spec: the types of \<open>spellchecker.h\<close>, a header that is not
  among the sources. A \<open>Dictionary\<close> has the fields \<open>words\<close>, \<open>count\<close> and
  \<open>capacity\<close> that the code uses. In the model \<open>count\<close> is the length of
  \<open>words\<close> (\<open>dict_count\<close>) and \<open>capacity\<close> is a natural number (an
  \<open>int\<close> in the source, never negative). The field \<open>block\<close> is not a field of the
  source: it is the number of entries that the memory block behind \<open>words\<close> holds, as
  the last \<open>malloc\<close> or successful \<open>realloc\<close> made it. A write to \<open>words[i]\<close> with
  \<open>i\<close> not below \<open>block\<close> falls outside the block.
\<close>

record Dictionary =
  words :: "string list"
  capacity :: nat
  block :: nat

definition dict_count :: "Dictionary \<Rightarrow> nat" where
  "dict_count dict = length (words dict)"

text \<open>The loop of \<open>BinarySearchDictionary\<close>, on the signed indices of the source.\<close>

function bsearch_loop :: "string list \<Rightarrow> string \<Rightarrow> int \<Rightarrow> int \<Rightarrow> bool" where
  "bsearch_loop ws w left right =
     (if left \<le> right then
        (let mid = left + (right - left) div 2;
             cmp = strcasecmp_custom (ws ! nat mid) w
         in if cmp = 0 then True
            else if cmp < 0 then bsearch_loop ws w (mid + 1) right
            else bsearch_loop ws w left (mid - 1))
      else False)"
  by pat_completeness auto
termination
  by (relation "measure (\<lambda>(ws, w, left, right). nat (right - left + 1))") auto

declare bsearch_loop.simps [simp del]

definition BinarySearchDictionary :: "Dictionary \<Rightarrow> string \<Rightarrow> bool" where
  "BinarySearchDictionary dict w = bsearch_loop (words dict) w 0 (int (dict_count dict) - 1)"

section \<open>The engine\<close>

text \<open>
  Modelled from the spec: the other types of \<open>spellchecker.h\<close>. A
  \<open>MisspelledWord\<close> is a word text with its start and end offsets, which are
  \<open>DWORD\<close>s like \<open>pos\<close> in \<open>SpellChecker_Check\<close>; its array \<open>word\<close> is
  taken to hold the 256 bytes of the capture buffer, so that the \<open>strcpy\<close> into it
  copies the captured word whole. In a \<open>MisspelledWordList\<close> the field \<open>count\<close>
  is the length of \<open>mwords\<close> (the field \<open>words\<close> of the source),
  \<open>mcapacity\<close> is its \<open>capacity\<close> and \<open>mblock\<close> is the number of entries
  that the memory block behind it holds.
\<close>

record MisspelledWord =
  word :: string
  startPos :: "32 word"
  endPos :: "32 word"

record MisspelledWordList =
  mwords :: "MisspelledWord list"
  mcapacity :: nat
  mblock :: nat

record SpellChecker =
  mainDictionary :: Dictionary
  userDictionary :: Dictionary
  ignoredWords :: Dictionary
  misspelled :: MisspelledWordList
  enabled :: bool
  suggestionsEnabled :: bool

text \<open>
  \<open>SpellChecker_IsWordCorrect\<close>; the word is \<open>None\<close> for a null pointer. The engine
  is passed as a value, so the guard on a null engine has no counterpart.
\<close>

definition SpellChecker_IsWordCorrect :: "SpellChecker \<Rightarrow> string option \<Rightarrow> bool" where
  "SpellChecker_IsWordCorrect sc wp =
     (case wp of
        None \<Rightarrow> True
      | Some w \<Rightarrow>
          if strlen w = 0 then True
          else if BinarySearchDictionary (ignoredWords sc) w then True
          else if BinarySearchDictionary (mainDictionary sc) w then True
          else if BinarySearchDictionary (userDictionary sc) w then True
          else False)"

section \<open>Growing and sorting a dictionary\<close>

text \<open>
  \<open>qsort\<close> belongs to the C library, which specifies its result only: a permutation of
  the array in the order of the comparator, with the order of entries that compare equal
  left open. The model sorts by insertion; the theorems about sorted dictionaries rest on
  \<open>qsort_sorted\<close> and \<open>qsort_mset\<close> alone.
\<close>

fun qsort_insert :: "(string \<Rightarrow> string \<Rightarrow> int) \<Rightarrow> string \<Rightarrow> string list \<Rightarrow> string list" where
  "qsort_insert cmp x [] = [x]"
| "qsort_insert cmp x (y # ys) =
     (if cmp x y \<le> 0 then x # y # ys else y # qsort_insert cmp x ys)"

definition qsort :: "(string \<Rightarrow> string \<Rightarrow> int) \<Rightarrow> string list \<Rightarrow> string list" where
  "qsort cmp xs = foldr (qsort_insert cmp) xs []"

text \<open>
  The source repeats one block wherever it appends a word: double the capacity and
  \<open>realloc\<close> when the array is full (\<open>grow\<close>), then \<open>malloc\<close> the entry, store the
  pointer in \<open>words[count]\<close>, \<open>strcpy\<close> the word into it and increment the count
  (\<open>store\<close>). The capacity is doubled before \<open>realloc\<close> is called and stays doubled
  when \<open>realloc\<close> fails, while the block keeps its size. \<open>grow\<close> returns whether it
  went through, the dictionary, and the allocation outcomes left. \<open>store\<close> writes
  \<open>words[count]\<close> before it looks at the result of \<open>malloc\<close>, so it is undefined when
  \<open>count\<close> is not below the size of the block.
\<close>

definition grow :: "bool list \<Rightarrow> Dictionary \<Rightarrow> bool \<times> Dictionary \<times> bool list" where
  "grow h dict =
     (if dict_count dict \<ge> capacity dict then
        (let dict' = dict\<lparr>capacity := capacity dict * 2\<rparr>; r = alloc h
         in if \<not> fst r then (False, dict', snd r)
            else (True, dict'\<lparr>block := capacity dict'\<rparr>, snd r))
      else (True, dict, h))"

definition store ::
  "bool list \<Rightarrow> Dictionary \<Rightarrow> string \<Rightarrow> (bool \<times> Dictionary \<times> bool list) option" where
  "store h dict w =
     (if \<not> dict_count dict < block dict then None
      else
        (let r = alloc h
         in if \<not> fst r then Some (False, dict, snd r)
            else Some (True, dict\<lparr>words := words dict @ [strcpy w]\<rparr>, snd r)))"

definition sort_dictionary :: "Dictionary \<Rightarrow> Dictionary" where
  "sort_dictionary dict =
     (if dict_count dict > 0 then dict\<lparr>words := qsort DictionaryComparator (words dict)\<rparr>
      else dict)"

section \<open>Creating the engine\<close>

definition SpellChecker_Create :: "bool list \<Rightarrow> SpellChecker option" where
  "SpellChecker_Create h =
     (let r0 = alloc h in
      if \<not> fst r0 then None
      else
        (let r1 = alloc (snd r0); r2 = alloc (snd r1); r3 = alloc (snd r2); r4 = alloc (snd r3)
         in if \<not> fst r1 \<or> \<not> fst r2 \<or> \<not> fst r3 \<or> \<not> fst r4 then None
            else Some \<lparr>mainDictionary = \<lparr>words = [], capacity = 10000, block = 10000\<rparr>,
                       userDictionary = \<lparr>words = [], capacity = 1000, block = 1000\<rparr>,
                       ignoredWords = \<lparr>words = [], capacity = 100, block = 100\<rparr>,
                       misspelled = \<lparr>mwords = [], mcapacity = 100, mblock = 100\<rparr>,
                       enabled = True,
                       suggestionsEnabled = True\<rparr>))"

section \<open>Loading dictionaries\<close>

text \<open>
  A file that \<open>fopen\<close> opens is the list of the bytes the stream delivers; the file
  system is a map from paths to such contents, undefined where \<open>fopen\<close> returns null.
  \<open>fgets_line n\<close> is one call \<open>fgets(line, n + 1, file)\<close> on a stream that is not at
  its end: it takes at most \<open>n\<close> bytes and stops after a newline. \<open>fgets_all\<close> lists
  the buffers of the successive calls until \<open>fgets\<close> returns null at the end of the file.
\<close>

fun fgets_line :: "nat \<Rightarrow> string \<Rightarrow> string \<times> string" where
  "fgets_line 0 s = ([], s)"
| "fgets_line (Suc n) [] = ([], [])"
| "fgets_line (Suc n) (c # s) =
     (if byte c = 10 then ([c], s)
      else (let r = fgets_line n s in (c # fst r, snd r)))"

lemma fgets_line_length: "length (snd (fgets_line n s)) \<le> length s"
  by (induction n s rule: fgets_line.induct) (auto simp: Let_def)

function fgets_all :: "string \<Rightarrow> string list" where
  "fgets_all s =
     (if s = [] then []
      else (let r = fgets_line 255 s in fst r # fgets_all (snd r)))"
  by pat_completeness auto
termination
proof (relation "measure length")
  fix s :: string and r
  assume "s \<noteq> []" and r: "r = fgets_line 255 s"
  then obtain c s' where s: "s = c # s'" by (cases s) auto
  have "length (snd (fgets_line 254 s')) \<le> length s'" by (rule fgets_line_length)
  with s r show "(snd r, s) \<in> measure length"
    by (simp add: Let_def numeral_eq_Suc)
qed simp

declare fgets_all.simps [simp del]

text \<open>The loop that removes trailing whitespace from the buffer; \<open>len\<close> starts at \<open>strlen line\<close>.\<close>

fun trim_trailing :: "string \<Rightarrow> nat \<Rightarrow> string" where
  "trim_trailing line 0 = []"
| "trim_trailing line (Suc n) =
     (if isspace (byte (line ! n)) then trim_trailing line n else take (Suc n) line)"

text \<open>
  The read loop of \<open>SpellChecker_LoadDictionary\<close> over the buffers of the file. The
  boolean is \<open>False\<close> when the loop left the function with \<open>return FALSE\<close>.
\<close>

fun load_main_loop ::
  "bool list \<Rightarrow> Dictionary \<Rightarrow> string list \<Rightarrow> (bool \<times> Dictionary) option" where
  "load_main_loop h dict [] = Some (True, dict)"
| "load_main_loop h dict (buf # rest) =
     (let line = trim_trailing buf (strlen buf); len = length line in
      if len = 0 \<or> byte (line ! 0) = 35 then load_main_loop h dict rest
      else
        (let g = grow h dict in
         if \<not> fst g then Some (False, fst (snd g))
         else
           (case store (snd (snd g)) (fst (snd g)) line of
              None \<Rightarrow> None
            | Some st \<Rightarrow>
                if \<not> fst st then Some (False, fst (snd st))
                else load_main_loop (snd (snd st)) (fst (snd st)) rest)))"

definition SpellChecker_LoadDictionary ::
  "(string \<Rightarrow> string option) \<Rightarrow> bool list \<Rightarrow> SpellChecker \<Rightarrow> string option
     \<Rightarrow> (bool \<times> SpellChecker) option" where
  "SpellChecker_LoadDictionary fs h sc filePath =
     (case filePath of
        None \<Rightarrow> Some (False, sc)
      | Some path \<Rightarrow>
          (case fs path of
             None \<Rightarrow> Some (False, sc)
           | Some file \<Rightarrow>
               (case load_main_loop h (mainDictionary sc) (fgets_all file) of
                  None \<Rightarrow> None
                | Some r \<Rightarrow>
                    if \<not> fst r then Some (False, sc\<lparr>mainDictionary := snd r\<rparr>)
                    else
                      (let dict = sort_dictionary (snd r)
                       in Some (dict_count dict > 0, sc\<lparr>mainDictionary := dict\<rparr>)))))"

fun load_user_loop ::
  "bool list \<Rightarrow> Dictionary \<Rightarrow> string list \<Rightarrow> (bool \<times> Dictionary) option" where
  "load_user_loop h dict [] = Some (True, dict)"
| "load_user_loop h dict (buf # rest) =
     (let line = trim_trailing buf (strlen buf); len = length line in
      if len = 0 then load_user_loop h dict rest
      else
        (let g = grow h dict in
         if \<not> fst g then Some (False, fst (snd g))
         else
           (case store (snd (snd g)) (fst (snd g)) line of
              None \<Rightarrow> None
            | Some st \<Rightarrow>
                if \<not> fst st then Some (False, fst (snd st))
                else load_user_loop (snd (snd st)) (fst (snd st)) rest)))"

definition SpellChecker_LoadUserDictionary ::
  "(string \<Rightarrow> string option) \<Rightarrow> bool list \<Rightarrow> SpellChecker \<Rightarrow> string option
     \<Rightarrow> (bool \<times> SpellChecker) option" where
  "SpellChecker_LoadUserDictionary fs h sc filePath =
     (case filePath of
        None \<Rightarrow> Some (False, sc)
      | Some path \<Rightarrow>
          (case fs path of
             None \<Rightarrow> Some (True, sc)
           | Some file \<Rightarrow>
               (case load_user_loop h (userDictionary sc) (fgets_all file) of
                  None \<Rightarrow> None
                | Some r \<Rightarrow>
                    if \<not> fst r then Some (False, sc\<lparr>userDictionary := snd r\<rparr>)
                    else Some (True, sc\<lparr>userDictionary := sort_dictionary (snd r)\<rparr>))))"

section \<open>Learning a word\<close>

definition SpellChecker_AddToUserDictionary ::
  "bool list \<Rightarrow> SpellChecker \<Rightarrow> string option \<Rightarrow> SpellChecker option" where
  "SpellChecker_AddToUserDictionary h sc wp =
     (case wp of
        None \<Rightarrow> Some sc
      | Some w \<Rightarrow>
          if BinarySearchDictionary (userDictionary sc) w then Some sc
          else
            (let g = grow h (userDictionary sc) in
             if \<not> fst g then Some (sc\<lparr>userDictionary := fst (snd g)\<rparr>)
             else
               (case store (snd (snd g)) (fst (snd g)) w of
                  None \<Rightarrow> None
                | Some st \<Rightarrow>
                    if \<not> fst st then Some (sc\<lparr>userDictionary := fst (snd st)\<rparr>)
                    else Some (sc\<lparr>userDictionary := sort_dictionary (fst (snd st))\<rparr>))))"

section \<open>The ignore list\<close>

definition SpellChecker_AddToIgnoreList ::
  "bool list \<Rightarrow> SpellChecker \<Rightarrow> string option \<Rightarrow> SpellChecker option" where
  "SpellChecker_AddToIgnoreList h sc wp =
     (case wp of
        None \<Rightarrow> Some sc
      | Some w \<Rightarrow>
          if BinarySearchDictionary (ignoredWords sc) w then Some sc
          else
            (let g = grow h (ignoredWords sc) in
             if \<not> fst g then Some (sc\<lparr>ignoredWords := fst (snd g)\<rparr>)
             else
               (case store (snd (snd g)) (fst (snd g)) w of
                  None \<Rightarrow> None
                | Some st \<Rightarrow>
                    if \<not> fst st then Some (sc\<lparr>ignoredWords := fst (snd st)\<rparr>)
                    else Some (sc\<lparr>ignoredWords := sort_dictionary (fst (snd st))\<rparr>))))"

definition SpellChecker_ClearIgnoreList :: "SpellChecker \<Rightarrow> SpellChecker" where
  "SpellChecker_ClearIgnoreList sc = sc\<lparr>ignoredWords := (ignoredWords sc)\<lparr>words := []\<rparr>\<rparr>"

section \<open>Checking a text\<close>

text \<open>
  The two inner loops of \<open>SpellChecker_Check\<close>. \<open>ptr\<close> is the rest of the text and
  \<open>pos\<close> the \<open>DWORD\<close> offset, which wraps at \<open>2 ^ 32\<close>. In \<open>extract_word\<close> the
  list \<open>w\<close> holds the bytes \<open>word[0] .. word[wordLen - 1]\<close> of the 256-byte buffer,
  so \<open>wordLen\<close> is its length and the bound \<open>sizeof(word) - 1\<close> is 255.
\<close>

fun skip_non_alpha :: "string \<Rightarrow> 32 word \<Rightarrow> string \<times> 32 word" where
  "skip_non_alpha [] pos = ([], pos)"
| "skip_non_alpha (c # ptr) pos =
     (if byte c \<noteq> 0 \<and> \<not> isalpha (byte c) then skip_non_alpha ptr (pos + 1)
      else (c # ptr, pos))"

fun extract_word :: "string \<Rightarrow> 32 word \<Rightarrow> string \<Rightarrow> string \<times> 32 word \<times> string" where
  "extract_word [] pos w = ([], pos, w)"
| "extract_word (c # ptr) pos w =
     (if byte c \<noteq> 0 \<and> isalpha (byte c) \<and> length w < 255
      then extract_word ptr (pos + 1) (w @ [c])
      else (c # ptr, pos, w))"

text \<open>
  Appending to the misspelled list: the capacity is doubled and the array reallocated
  when it is full; the function returns at once when \<open>realloc\<close> fails, with the
  capacity doubled and the block as it was. \<open>write_entry\<close> is the write of the three
  fields of \<open>words[count]\<close> and the increment of \<open>count\<close>; it is undefined when
  \<open>count\<close> is not below the size of the block.
\<close>

definition write_entry ::
  "MisspelledWordList \<Rightarrow> MisspelledWord \<Rightarrow> bool list
     \<Rightarrow> (bool \<times> MisspelledWordList \<times> bool list) option" where
  "write_entry m entry h =
     (if \<not> length (mwords m) < mblock m then None
      else Some (True, m\<lparr>mwords := mwords m @ [entry]\<rparr>, h))"

definition record_misspelled ::
  "bool list \<Rightarrow> MisspelledWordList \<Rightarrow> string \<Rightarrow> 32 word \<Rightarrow> 32 word
     \<Rightarrow> (bool \<times> MisspelledWordList \<times> bool list) option" where
  "record_misspelled h m w wordStart pos =
     (let entry = \<lparr>word = strcpy w, startPos = wordStart, endPos = pos\<rparr> in
      if length (mwords m) \<ge> mcapacity m then
        (let m' = m\<lparr>mcapacity := mcapacity m * 2\<rparr>; r = alloc h in
         if \<not> fst r then Some (False, m', snd r)
         else write_entry (m'\<lparr>mblock := mcapacity m'\<rparr>) entry (snd r))
      else write_entry m entry h)"

lemma skip_non_alpha_length: "length (fst (skip_non_alpha ptr pos)) \<le> length ptr"
  by (induction ptr pos rule: skip_non_alpha.induct) auto

lemma skip_non_alpha_stops:
  "deref (fst (skip_non_alpha ptr pos)) \<noteq> 0 \<Longrightarrow> isalpha (deref (fst (skip_non_alpha ptr pos)))"
  by (induction ptr pos rule: skip_non_alpha.induct) auto

lemma extract_word_length: "length (fst (extract_word ptr pos w)) \<le> length ptr"
  by (induction ptr pos w rule: extract_word.induct) auto

lemma extract_word_progress:
  "deref ptr \<noteq> 0 \<Longrightarrow> isalpha (deref ptr) \<Longrightarrow> length (fst (extract_word ptr pos [])) < length ptr"
proof (cases ptr)
  case Nil
  then show "deref ptr \<noteq> 0 \<Longrightarrow> ?thesis" by simp
next
  case (Cons c p)
  assume "deref ptr \<noteq> 0" "isalpha (deref ptr)"
  with Cons extract_word_length [of p "pos + 1" "[c]"] show ?thesis by simp
qed

function check_loop ::
  "bool list \<Rightarrow> SpellChecker \<Rightarrow> string \<Rightarrow> 32 word \<Rightarrow> SpellChecker option" where
  "check_loop h sc ptr pos =
     (if deref ptr = 0 then Some sc
      else
        (let sk = skip_non_alpha ptr pos in
         if deref (fst sk) = 0 then Some sc
         else
           (let wordStart = snd sk;
                ex = extract_word (fst sk) (snd sk) [];
                w = snd (snd ex)
            in if \<not> SpellChecker_IsWordCorrect sc (Some w) then
                 (case record_misspelled h (misspelled sc) w wordStart (fst (snd ex)) of
                    None \<Rightarrow> None
                  | Some r \<Rightarrow>
                      if \<not> fst r then Some (sc\<lparr>misspelled := fst (snd r)\<rparr>)
                      else check_loop (snd (snd r)) (sc\<lparr>misspelled := fst (snd r)\<rparr>)
                             (fst ex) (fst (snd ex)))
               else check_loop h sc (fst ex) (fst (snd ex)))))"
  by pat_completeness auto
termination
proof (relation "measure (\<lambda>(h, sc, ptr, pos). length ptr)")
  show "wf (measure (\<lambda>(h, sc, ptr, pos). length ptr))" by simp
next
  fix h :: "bool list" and sc :: SpellChecker and ptr :: string and pos :: "32 word"
    and sk wordStart ex w r
  assume "deref (fst sk) \<noteq> 0" "sk = skip_non_alpha ptr pos" "ex = extract_word (fst sk) (snd sk) []"
  then show "((snd (snd r), sc\<lparr>misspelled := fst (snd r)\<rparr>, fst ex, fst (snd ex)), h, sc, ptr, pos)
      \<in> measure (\<lambda>(h, sc, ptr, pos). length ptr)"
    using skip_non_alpha_length [of ptr pos] skip_non_alpha_stops [of ptr pos]
      extract_word_progress [of "fst sk" "snd sk"]
    by simp
next
  fix h :: "bool list" and sc :: SpellChecker and ptr :: string and pos :: "32 word"
    and sk wordStart ex w
  assume "deref (fst sk) \<noteq> 0" "sk = skip_non_alpha ptr pos" "ex = extract_word (fst sk) (snd sk) []"
  then show "((h, sc, fst ex, fst (snd ex)), h, sc, ptr, pos)
      \<in> measure (\<lambda>(h, sc, ptr, pos). length ptr)"
    using skip_non_alpha_length [of ptr pos] skip_non_alpha_stops [of ptr pos]
      extract_word_progress [of "fst sk" "snd sk"]
    by simp
qed

declare check_loop.simps [simp del]

text \<open>The scan that detects a text of whitespace only.\<close>

fun only_whitespace :: "string \<Rightarrow> bool" where
  "only_whitespace [] = True"
| "only_whitespace (c # checkPtr) =
     (if byte c = 0 then True
      else if \<not> isspace (byte c) then False
      else only_whitespace checkPtr)"

text \<open>\<open>SpellChecker_Check\<close>; the text is \<open>None\<close> for a null pointer.\<close>

definition SpellChecker_Check ::
  "bool list \<Rightarrow> SpellChecker \<Rightarrow> string option \<Rightarrow> SpellChecker option" where
  "SpellChecker_Check h sc text =
     (let sc0 = sc\<lparr>misspelled := (misspelled sc)\<lparr>mwords := []\<rparr>\<rparr> in
      if \<not> enabled sc then Some sc0
      else
        (case text of
           None \<Rightarrow> Some sc0
         | Some t \<Rightarrow>
             if deref t = 0 then Some sc0
             else if only_whitespace t then Some sc0
             else check_loop h sc0 t 0))"

section \<open>Suggestions\<close>

text \<open>
  \<open>LevenshteinDistance\<close> with its one row \<open>d\<close> of \<open>len2 + 1\<close> integers. The inner
  loop runs \<open>j\<close> from 1 to \<open>len2\<close>, the outer loop \<open>i\<close> from 1 to \<open>len1\<close>. The
  result is \<open>-1\<close> when \<open>malloc\<close> fails.
\<close>

function lev_inner :: "string \<Rightarrow> string \<Rightarrow> nat \<Rightarrow> nat \<Rightarrow> nat \<Rightarrow> int \<Rightarrow> int list \<Rightarrow> int list" where
  "lev_inner s1 s2 len2 i j prev_diag d =
     (if j \<le> len2 then
        (let cost = (if s1 ! (i - 1) = s2 ! (j - 1) then 0 else 1);
             temp = d ! j;
             d1 = d[j := (if d ! j + 1 < d ! (j - 1) + 1 then d ! j + 1 else d ! (j - 1) + 1)];
             d2 = d1[j := (if d1 ! j < prev_diag + cost then d1 ! j else prev_diag + cost)]
         in lev_inner s1 s2 len2 i (j + 1) temp d2)
      else d)"
  by pat_completeness auto
termination
  by (relation "measure (\<lambda>(s1, s2, len2, i, j, prev_diag, d). Suc len2 - j)") auto

declare lev_inner.simps [simp del]

function lev_outer :: "string \<Rightarrow> string \<Rightarrow> nat \<Rightarrow> nat \<Rightarrow> nat \<Rightarrow> int list \<Rightarrow> int list" where
  "lev_outer s1 s2 len1 len2 i d =
     (if i \<le> len1 then
        lev_outer s1 s2 len1 len2 (i + 1) (lev_inner s1 s2 len2 i 1 (int i - 1) (d[0 := int i]))
      else d)"
  by pat_completeness auto
termination
  by (relation "measure (\<lambda>(s1, s2, len1, len2, i, d). Suc len1 - i)") auto

declare lev_outer.simps [simp del]

definition LevenshteinDistance :: "bool list \<Rightarrow> string \<Rightarrow> string \<Rightarrow> int \<times> bool list" where
  "LevenshteinDistance h s1 s2 =
     (let len1 = strlen s1; len2 = strlen s2 in
      if len1 = 0 then (int len2, h)
      else if len2 = 0 then (int len1, h)
      else
        (let r = alloc h in
         if \<not> fst r then (- 1, snd r)
         else (lev_outer s1 s2 len1 len2 1 (map int [0..<Suc len2]) ! len2, snd r)))"

text \<open>A \<open>Suggestion\<close> is the pair of the dictionary word and its distance.\<close>

type_synonym Suggestion = "string \<times> int"

text \<open>The scan of the main dictionary, which ends once ten candidates are held.\<close>

fun collect_suggestions ::
  "bool list \<Rightarrow> string \<Rightarrow> string list \<Rightarrow> Suggestion list \<Rightarrow> Suggestion list \<times> bool list" where
  "collect_suggestions h w [] suggestions = (suggestions, h)"
| "collect_suggestions h w (e # rest) suggestions =
     (if length suggestions < 10 then
        (let r = LevenshteinDistance h w e; dist = fst r in
         collect_suggestions (snd r) w rest
           (if dist > 0 \<and> dist \<le> 2 then suggestions @ [(e, dist)] else suggestions))
      else (suggestions, h))"

text \<open>The sort by distance: for each \<open>i\<close>, every later \<open>j\<close> with a smaller distance is swapped in.\<close>

function sort_inner :: "nat \<Rightarrow> Suggestion list \<Rightarrow> nat \<Rightarrow> nat \<Rightarrow> Suggestion list" where
  "sort_inner suggestCount s i j =
     (if j < suggestCount then
        sort_inner suggestCount
          (if snd (s ! j) < snd (s ! i) then s[i := s ! j, j := s ! i] else s) i (j + 1)
      else s)"
  by pat_completeness auto
termination
  by (relation "measure (\<lambda>(suggestCount, s, i, j). suggestCount - j)") auto

declare sort_inner.simps [simp del]

function sort_outer :: "nat \<Rightarrow> Suggestion list \<Rightarrow> nat \<Rightarrow> Suggestion list" where
  "sort_outer suggestCount s i =
     (if i + 1 < suggestCount then
        sort_outer suggestCount (sort_inner suggestCount s i (i + 1)) (i + 1)
      else s)"
  by pat_completeness auto
termination
  by (relation "measure (\<lambda>(suggestCount, s, i). suggestCount - i)") auto

declare sort_outer.simps [simp del]

text \<open>The copy of the kept suggestions into the result array, one \<open>malloc\<close> each.\<close>

fun copy_suggestions :: "bool list \<Rightarrow> Suggestion list \<Rightarrow> string list option" where
  "copy_suggestions h [] = Some []"
| "copy_suggestions h (s # rest) =
     (let r = alloc h in
      if \<not> fst r then None
      else (case copy_suggestions (snd r) rest of
              None \<Rightarrow> None
            | Some result \<Rightarrow> Some (strcpy (fst s) # result)))"

text \<open>
  \<open>SpellChecker_GetSuggestions\<close>: \<open>None\<close> is the null result, \<open>Some result\<close> the
  array returned, whose length is the value stored in \<open>*count\<close>.
\<close>

definition SpellChecker_GetSuggestions ::
  "bool list \<Rightarrow> SpellChecker \<Rightarrow> string option \<Rightarrow> string list option" where
  "SpellChecker_GetSuggestions h sc wp =
     (case wp of
        None \<Rightarrow> None
      | Some w \<Rightarrow>
          (let r0 = alloc h in
           if \<not> fst r0 then None
           else
             (let c = collect_suggestions (snd r0) w (words (mainDictionary sc)) [];
                  suggestions = sort_outer (length (fst c)) (fst c) 0;
                  suggestCount = (if length (fst c) > 5 then 5 else length (fst c));
                  r1 = alloc (snd c)
              in if \<not> fst r1 then None
                 else copy_suggestions (snd r1) (take suggestCount suggestions))))"

section \<open>The vocabulary of the specification\<close>

text \<open>
  Two words are the same up to case when their lower-cased bytes agree: \<open>key\<close> is
  that byte sequence, and the order of the comparators is the lexicographic order of keys.
\<close>

definition key :: "string \<Rightarrow> int list" where
  "key s = map (\<lambda>c. tolower (byte c)) (c_str s)"

text \<open>
  The invariant of a word set, sortedness in the order of \<open>DictionaryComparator\<close>, and
  case-insensitive membership as the specification words it.
\<close>

definition dict_sorted :: "string list \<Rightarrow> bool" where
  "dict_sorted ws = sorted_wrt (\<lambda>a b. DictionaryComparator a b \<le> 0) ws"

definition contains_nocase :: "string list \<Rightarrow> string \<Rightarrow> bool" where
  "contains_nocase ws w = list_ex (\<lambda>e. key e = key w) ws"

text \<open>
  The invariant of the data model: the three word sets of the engine are sorted. It
  holds after \<open>SpellChecker_Create\<close> and every operation keeps it, a load under the
  condition that it is not cut short by a failed allocation.
\<close>

definition engine_sorted :: "SpellChecker \<Rightarrow> bool" where
  "engine_sorted sc =
     (dict_sorted (words (ignoredWords sc)) \<and> dict_sorted (words (mainDictionary sc)) \<and>
      dict_sorted (words (userDictionary sc)))"

text \<open>An engine as \<open>SpellChecker_Create\<close> leaves it, with the three word sets given.\<close>

definition engine :: "string list \<Rightarrow> string list \<Rightarrow> string list \<Rightarrow> SpellChecker" where
  "engine m u i = \<lparr>mainDictionary = \<lparr>words = m, capacity = 10000, block = 10000\<rparr>,
                       userDictionary = \<lparr>words = u, capacity = 1000, block = 1000\<rparr>,
                       ignoredWords = \<lparr>words = i, capacity = 100, block = 100\<rparr>,
                       misspelled = \<lparr>mwords = [], mcapacity = 100, mblock = 100\<rparr>,
                       enabled = True,
                       suggestionsEnabled = True\<rparr>"

text \<open>
  An array is backed by its block when its capacity is positive and not above the number
  of entries that the block holds, and, for a word set, when the count is within the
  capacity. \<open>SpellChecker_Create\<close> leaves every array so, and every operation keeps
  it so except a call in which \<open>realloc\<close> fails: the source doubles the capacity
  before it calls \<open>realloc\<close> and does not restore it.
\<close>

definition dict_backed :: "Dictionary \<Rightarrow> bool" where
  "dict_backed d = (dict_count d \<le> capacity d \<and> 0 < capacity d \<and> capacity d \<le> block d)"

definition list_backed :: "MisspelledWordList \<Rightarrow> bool" where
  "list_backed m = (0 < mcapacity m \<and> mcapacity m \<le> mblock m)"

text \<open>
  Two calls of \<open>SpellChecker_Check\<close> in succession with the same text, and a sequence
  of calls of \<open>SpellChecker_AddToUserDictionary\<close>, each given by the outcomes of its
  allocations and its word. Both are undefined as soon as one call is.
\<close>

definition Check_twice ::
  "bool list \<Rightarrow> bool list \<Rightarrow> SpellChecker \<Rightarrow> string option \<Rightarrow> SpellChecker option" where
  "Check_twice h1 h2 sc text =
     (case SpellChecker_Check h1 sc text of
        None \<Rightarrow> None
      | Some sc1 \<Rightarrow> SpellChecker_Check h2 sc1 text)"

fun add_all :: "SpellChecker \<Rightarrow> (bool list \<times> string option) list \<Rightarrow> SpellChecker option" where
  "add_all sc [] = Some sc"
| "add_all sc (c # calls) =
     (case SpellChecker_AddToUserDictionary (fst c) sc (snd c) of
        None \<Rightarrow> None
      | Some sc' \<Rightarrow> add_all sc' calls)"

text \<open>
  The token sequence of the scan in \<open>SpellChecker_Check\<close>: the same loop with the
  engine left out. A token is the captured word with its start and end offsets.
\<close>

function tokens :: "string \<Rightarrow> 32 word \<Rightarrow> (string \<times> 32 word \<times> 32 word) list" where
  "tokens ptr pos =
     (if deref ptr = 0 then []
      else
        (let sk = skip_non_alpha ptr pos in
         if deref (fst sk) = 0 then []
         else
           (let wordStart = snd sk;
                ex = extract_word (fst sk) (snd sk) []
            in (snd (snd ex), wordStart, fst (snd ex)) # tokens (fst ex) (fst (snd ex)))))"
  by pat_completeness auto
termination
proof (relation "measure (\<lambda>(ptr, pos). length ptr)")
  show "wf (measure (\<lambda>(ptr, pos). length ptr))" by simp
next
  fix ptr :: string and pos :: "32 word" and sk wordStart ex
  assume "deref (fst sk) \<noteq> 0" "sk = skip_non_alpha ptr pos" "ex = extract_word (fst sk) (snd sk) []"
  then show "((fst ex, fst (snd ex)), ptr, pos) \<in> measure (\<lambda>(ptr, pos). length ptr)"
    using skip_non_alpha_length [of ptr pos] skip_non_alpha_stops [of ptr pos]
      extract_word_progress [of "fst sk" "snd sk"]
    by simp
qed

declare tokens.simps [simp del]

text \<open>The entries that a list of tokens adds to the misspelled list of an engine.\<close>

definition misspelled_of ::
  "SpellChecker \<Rightarrow> (string \<times> 32 word \<times> 32 word) list \<Rightarrow> MisspelledWord list" where
  "misspelled_of sc ts =
     map (\<lambda>t. \<lparr>word = strcpy (fst t), startPos = fst (snd t), endPos = snd (snd t)\<rparr>)
       (filter (\<lambda>t. \<not> SpellChecker_IsWordCorrect sc (Some (fst t))) ts)"

text \<open>
  The line a buffer holds once its trailing whitespace is removed, and the entries that
  the two loaders take from a file: the main loader drops empty lines and lines that
  begin with \<open>#\<close>, the user loader drops empty lines only.
\<close>

definition trimmed :: "string \<Rightarrow> string" where
  "trimmed buf = trim_trailing buf (strlen buf)"

definition main_entries :: "string list \<Rightarrow> string list" where
  "main_entries bufs =
     map strcpy (filter (\<lambda>l. \<not> (length l = 0 \<or> byte (l ! 0) = 35)) (map trimmed bufs))"



text \<open>
  The edit distance as the specification defines it, by the Levenshtein recurrence on
  prefixes: \<open>lev\<close> takes the two prefixes reversed, so that their last characters
  come first, and \<open>edit_distance a b\<close> is the distance between \<open>a\<close> and \<open>b\<close>.
\<close>

fun lev :: "string \<Rightarrow> string \<Rightarrow> nat" where
  "lev [] ys = length ys"
| "lev xs [] = length xs"
| "lev (x # xs) (y # ys) =
     min (min (lev xs (y # ys) + 1) (lev (x # xs) ys + 1)) (lev xs ys + (if x = y then 0 else 1))"

definition edit_distance :: "string \<Rightarrow> string \<Rightarrow> nat" where
  "edit_distance a b = lev (rev a) (rev b)"

text \<open>The table entry \<open>D(i, j)\<close>: the distance between the prefixes of lengths \<open>i\<close> and \<open>j\<close>.\<close>

definition D :: "string \<Rightarrow> string \<Rightarrow> nat \<Rightarrow> nat \<Rightarrow> int" where
  "D s1 s2 i j = int (lev (rev (take i s1)) (rev (take j s2)))"

text \<open>
  The candidates for a word \<open>w\<close> in a list of dictionary words: the words at distance
  1 or 2, in the order of the list, each with its distance.
\<close>

definition candidates :: "string \<Rightarrow> string list \<Rightarrow> Suggestion list" where
  "candidates w ws =
     map (\<lambda>e. (e, int (edit_distance (c_str w) (c_str e))))
       (filter (\<lambda>e. 0 < edit_distance (c_str w) (c_str e) \<and> edit_distance (c_str w) (c_str e) \<le> 2) ws)"

text \<open>A file system with one dictionary file, which holds the single line \<open>hello\<close>.\<close>

definition one_file :: "string \<Rightarrow> string option" where
  "one_file p = (if p = ''dict.txt'' then Some (''hello'' @ [CHR 0x0A]) else None)"

section \<open>The order of the comparators\<close>

lemma byte_ge0: "0 \<le> byte c"
proof -
  have "byte c = int (of_char c)" by (simp add: byte_def of_nat_of_char)
  then show ?thesis by simp
qed

lemma tolower_eq_0: "0 \<le> c \<Longrightarrow> tolower c = 0 \<longleftrightarrow> c = 0"
  by (auto simp: tolower_def)

lemma tolower_pos: "0 < c \<Longrightarrow> 0 < tolower c"
  by (auto simp: tolower_def)

lemma byte_pos: "byte c \<noteq> 0 \<Longrightarrow> 0 < byte c"
  using byte_ge0 [of c] by arith

lemma key_Nil: "key [] = []"
  by (simp add: key_def c_str_def)

lemma key_Cons: "key (a # s) = (if byte a \<noteq> 0 then tolower (byte a) # key s else [])"
  by (simp add: key_def c_str_def)

lemma strcasecmp_custom_less: "strcasecmp_custom a b < 0 \<longleftrightarrow> key a < key b"
proof (induction a arbitrary: b)
  case Nil
  show ?case
  proof (cases b)
    case Nil
    then show ?thesis by (simp add: key_Nil tolower_def)
  next
    case (Cons y b')
    then show ?thesis
      using byte_ge0 [of y] tolower_pos [of "byte y"]
      by (auto simp: key_Cons key_Nil tolower_def)
  qed
next
  case (Cons x a)
  show ?case
  proof (cases b)
    case Nil
    then show ?thesis
      using byte_ge0 [of x] tolower_pos [of "byte x"]
      by (auto simp: key_Cons key_Nil tolower_def)
  next
    case (Cons y b')
    then show ?thesis
      using Cons.IH [of b'] byte_ge0 [of x] byte_ge0 [of y]
        tolower_pos [of "byte x"] tolower_pos [of "byte y"]
      by (auto simp: key_Cons Let_def tolower_def)
  qed
qed

lemma strcasecmp_custom_eq: "strcasecmp_custom a b = 0 \<longleftrightarrow> key a = key b"
proof (induction a arbitrary: b)
  case Nil
  show ?case
  proof (cases b)
    case Nil
    then show ?thesis by (simp add: key_Nil tolower_def)
  next
    case (Cons y b')
    then show ?thesis
      using byte_ge0 [of y] tolower_pos [of "byte y"]
      by (auto simp: key_Cons key_Nil tolower_def)
  qed
next
  case (Cons x a)
  show ?case
  proof (cases b)
    case Nil
    then show ?thesis
      using byte_ge0 [of x] tolower_pos [of "byte x"]
      by (auto simp: key_Cons key_Nil tolower_def)
  next
    case (Cons y b')
    then show ?thesis
      using Cons.IH [of b'] byte_ge0 [of x] byte_ge0 [of y]
        tolower_pos [of "byte x"] tolower_pos [of "byte y"]
      by (auto simp: key_Cons Let_def tolower_def)
  qed
qed

lemma DictionaryComparator_eq: "DictionaryComparator a b = strcasecmp_custom a b"
  by (induction a b rule: strcasecmp_custom.induct) (simp_all add: Let_def)

lemma strcasecmp_custom_le: "strcasecmp_custom a b \<le> 0 \<longleftrightarrow> key a \<le> key b"
  using strcasecmp_custom_less [of a b] strcasecmp_custom_eq [of a b] by auto

section \<open>Binary search\<close>

lemma dict_sorted_key: "dict_sorted ws \<longleftrightarrow> sorted (map key ws)"
  by (simp add: dict_sorted_def DictionaryComparator_eq strcasecmp_custom_le sorted_wrt_map)

lemma bsearch_loop_sound:
  "bsearch_loop ws w left right \<Longrightarrow> 0 \<le> left \<Longrightarrow> right < int (length ws) \<Longrightarrow>
     contains_nocase ws w"
proof (induction ws w left right rule: bsearch_loop.induct)
  case (1 ws w left right)
  let ?mid = "left + (right - left) div 2"
  from "1.prems" have lr: "left \<le> right"
    by (subst (asm) bsearch_loop.simps) (simp split: if_splits)
  then have mid: "left \<le> ?mid" "?mid \<le> right" by auto
  show ?case
  proof (cases "strcasecmp_custom (ws ! nat ?mid) w = 0")
    case True
    moreover have "nat ?mid < length ws" using mid "1.prems" by auto
    ultimately show ?thesis
      unfolding contains_nocase_def list_ex_iff strcasecmp_custom_eq
      using nth_mem by blast
  next
    case ne: False
    show ?thesis
    proof (cases "strcasecmp_custom (ws ! nat ?mid) w < 0")
      case True
      with ne lr "1.prems" have "bsearch_loop ws w (?mid + 1) right"
        by (subst (asm) bsearch_loop.simps) (simp add: Let_def)
      with "1.IH"(1) [OF lr refl refl ne True] mid "1.prems" show ?thesis by simp
    next
      case False
      with ne lr "1.prems" have "bsearch_loop ws w left (?mid - 1)"
        by (subst (asm) bsearch_loop.simps) (simp add: Let_def)
      with "1.IH"(2) [OF lr refl refl ne False] mid "1.prems" show ?thesis by simp
    qed
  qed
qed

lemma bsearch_loop_complete:
  "sorted (map key ws) \<Longrightarrow> 0 \<le> left \<Longrightarrow> right < int (length ws) \<Longrightarrow>
   left \<le> int k \<Longrightarrow> int k \<le> right \<Longrightarrow> key (ws ! k) = key w \<Longrightarrow>
     bsearch_loop ws w left right"
proof (induction ws w left right rule: bsearch_loop.induct)
  case (1 ws w left right)
  let ?mid = "left + (right - left) div 2"
  from "1.prems" have lr: "left \<le> right" by simp
  then have mid: "left \<le> ?mid" "?mid \<le> right" by auto
  have midlen: "nat ?mid < length ws" using mid "1.prems" by auto
  have klen: "k < length ws" using "1.prems" by auto
  show ?case
  proof (cases "strcasecmp_custom (ws ! nat ?mid) w = 0")
    case True
    with lr show ?thesis by (subst bsearch_loop.simps) (simp add: Let_def)
  next
    case ne: False
    show ?thesis
    proof (cases "strcasecmp_custom (ws ! nat ?mid) w < 0")
      case True
      then have lt: "key (ws ! nat ?mid) < key (ws ! k)"
        by (simp add: strcasecmp_custom_less "1.prems")
      have "\<not> k \<le> nat ?mid"
      proof
        assume "k \<le> nat ?mid"
        with "1.prems"(1) midlen have "map key ws ! k \<le> map key ws ! nat ?mid"
          by (intro sorted_nth_mono) auto
        with lt klen midlen show False by simp
      qed
      then have "?mid + 1 \<le> int k" using mid "1.prems" by linarith
      with "1.IH"(1) [OF lr refl refl ne True] "1.prems"
      have "bsearch_loop ws w (?mid + 1) right" by simp
      with ne True lr show ?thesis by (subst bsearch_loop.simps) (simp add: Let_def)
    next
      case False
      with ne have "key (ws ! k) < key (ws ! nat ?mid)"
        using strcasecmp_custom_less [of "ws ! nat ?mid" w] strcasecmp_custom_eq [of "ws ! nat ?mid" w]
        by (simp add: "1.prems") 
      then have lt: "key (ws ! k) < key (ws ! nat ?mid)" .
      have "\<not> nat ?mid \<le> k"
      proof
        assume "nat ?mid \<le> k"
        with "1.prems"(1) klen have "map key ws ! nat ?mid \<le> map key ws ! k"
          by (intro sorted_nth_mono) auto
        with lt klen midlen show False by simp
      qed
      then have "int k \<le> ?mid - 1" using mid "1.prems" by linarith
      with "1.IH"(2) [OF lr refl refl ne False] "1.prems"
      have "bsearch_loop ws w left (?mid - 1)" by simp
      with ne False lr show ?thesis by (subst bsearch_loop.simps) (simp add: Let_def)
    qed
  qed
qed

lemma BinarySearchDictionary_sound:
  "BinarySearchDictionary dict w \<Longrightarrow> contains_nocase (words dict) w"
  unfolding BinarySearchDictionary_def dict_count_def
  by (erule bsearch_loop_sound) auto

lemma BinarySearchDictionary_iff:
  assumes "dict_sorted (words dict)"
  shows "BinarySearchDictionary dict w \<longleftrightarrow> contains_nocase (words dict) w"
proof
  assume "contains_nocase (words dict) w"
  then obtain k where k: "k < length (words dict)" "key (words dict ! k) = key w"
    by (auto simp: contains_nocase_def list_ex_iff in_set_conv_nth)
  with assms show "BinarySearchDictionary dict w"
    unfolding BinarySearchDictionary_def dict_count_def dict_sorted_key
    by (intro bsearch_loop_complete [where k = k]) auto
qed (rule BinarySearchDictionary_sound)

section \<open>The correctness policy\<close>

text \<open>
  C1: a null word and a word of length 0 are correct. For a word of positive length and
  an engine whose three word sets are sorted (the invariant of the data model),
  \<open>SpellChecker_IsWordCorrect\<close> returns true if and only if the word is present, up
  to case, in the ignore list, the main dictionary or the user dictionary.
\<close>

theorem IsWordCorrect_policy:
  "SpellChecker_IsWordCorrect sc None \<and>
   (strlen w = 0 \<longrightarrow> SpellChecker_IsWordCorrect sc (Some w)) \<and>
   (engine_sorted sc \<and> strlen w \<noteq> 0 \<longrightarrow>
      SpellChecker_IsWordCorrect sc (Some w) =
        (contains_nocase (words (ignoredWords sc)) w \<or>
         contains_nocase (words (mainDictionary sc)) w \<or>
         contains_nocase (words (userDictionary sc)) w))"
  by (auto simp: SpellChecker_IsWordCorrect_def BinarySearchDictionary_iff engine_sorted_def)

theorem IsWordCorrect_policy_witness:
  "SpellChecker_IsWordCorrect (engine [''hello'', ''world''] [''Zed''] [''wrold'']) (Some ''WROLD'') \<and>
   SpellChecker_IsWordCorrect (engine [''hello'', ''world''] [''Zed''] [''wrold'']) (Some ''zed'') \<and>
   SpellChecker_IsWordCorrect (engine [''hello'', ''world''] [''Zed''] [''wrold'']) (Some ''Hello'') \<and>
   \<not> SpellChecker_IsWordCorrect (engine [''hello'', ''world''] [''Zed''] [''wrold'']) (Some ''xyz'')"
proof -
  let ?sc = "engine [''hello'', ''world''] [''Zed''] [''wrold'']"
  have s: "engine_sorted ?sc"
    by (simp add: engine_sorted_def engine_def dict_sorted_def byte_def tolower_def)
  have l: "strlen ''WROLD'' \<noteq> 0" "strlen ''zed'' \<noteq> 0" "strlen ''Hello'' \<noteq> 0" "strlen ''xyz'' \<noteq> 0"
    by (simp_all add: strlen_def c_str_def byte_def)
  have c: "contains_nocase (words (ignoredWords ?sc)) ''WROLD''"
    "contains_nocase (words (userDictionary ?sc)) ''zed''"
    "contains_nocase (words (mainDictionary ?sc)) ''Hello''"
    "\<not> contains_nocase (words (ignoredWords ?sc)) ''xyz''"
    "\<not> contains_nocase (words (mainDictionary ?sc)) ''xyz''"
    "\<not> contains_nocase (words (userDictionary ?sc)) ''xyz''"
    by (simp_all add: engine_def contains_nocase_def key_def c_str_def byte_def tolower_def)
  show ?thesis
    using IsWordCorrect_policy [of ?sc "''WROLD''"] IsWordCorrect_policy [of ?sc "''zed''"]
      IsWordCorrect_policy [of ?sc "''Hello''"] IsWordCorrect_policy [of ?sc "''xyz''"] s l c
    by blast
qed

section \<open>The scan of a text\<close>

lemma alloc_granted:
  "set h \<subseteq> {True} \<Longrightarrow> fst (alloc h) \<and> set (snd (alloc h)) \<subseteq> {True}"
  by (cases h) auto

lemma IsWordCorrect_misspelled_update:
  "SpellChecker_IsWordCorrect (sc\<lparr>misspelled := m\<rparr>) wp = SpellChecker_IsWordCorrect sc wp"
  by (simp add: SpellChecker_IsWordCorrect_def split: option.split)

lemma misspelled_of_misspelled_update:
  "misspelled_of (sc\<lparr>misspelled := m\<rparr>) ts = misspelled_of sc ts"
  by (simp add: misspelled_of_def IsWordCorrect_misspelled_update)

text \<open>Whatever the allocations do, a scan that is defined changes the misspelled list only.\<close>

lemma check_loop_frame:
  "check_loop h sc ptr pos = Some sc' \<Longrightarrow> sc' = sc\<lparr>misspelled := misspelled sc'\<rparr>"
proof (induction h sc ptr pos arbitrary: sc' rule: check_loop.induct)
  case (1 h sc ptr pos)
  let ?sk = "skip_non_alpha ptr pos"
  let ?ex = "extract_word (fst ?sk) (snd ?sk) []"
  let ?w = "snd (snd ?ex)"
  let ?r = "record_misspelled h (misspelled sc) ?w (snd ?sk) (fst (snd ?ex))"
  show ?case
  proof (cases "deref ptr = 0 \<or> deref (fst ?sk) = 0")
    case True
    with "1.prems" have "sc' = sc"
      by (subst (asm) check_loop.simps) (auto simp: Let_def split: if_splits)
    then show ?thesis by simp
  next
    case False
    then have ne: "deref ptr \<noteq> 0" "deref (fst ?sk) \<noteq> 0" by auto
    show ?thesis
    proof (cases "SpellChecker_IsWordCorrect sc (Some ?w)")
      case True
      then have "check_loop h sc (fst ?ex) (fst (snd ?ex)) = Some sc'"
        using ne "1.prems" by (subst (asm) check_loop.simps) (simp add: Let_def)
      then show ?thesis
        using "1.IH"(2) [OF ne(1) refl ne(2) refl refl refl _] True by simp
    next
      case False
      note nc = this
      from "1.prems" ne nc obtain r where r: "?r = Some r"
        by (subst (asm) check_loop.simps) (auto simp: Let_def split: option.splits)
      show ?thesis
      proof (cases "fst r")
        case False
        then have "sc' = sc\<lparr>misspelled := fst (snd r)\<rparr>"
          using "1.prems" ne nc r by (subst (asm) check_loop.simps) (simp add: Let_def)
        then show ?thesis by simp
      next
        case True
        then have "check_loop (snd (snd r)) (sc\<lparr>misspelled := fst (snd r)\<rparr>)
            (fst ?ex) (fst (snd ?ex)) = Some sc'"
          using "1.prems" ne nc r by (subst (asm) check_loop.simps) (simp add: Let_def)
        then have "sc' = sc\<lparr>misspelled := fst (snd r)\<rparr>\<lparr>misspelled := misspelled sc'\<rparr>"
          using "1.IH"(1) [OF ne(1) refl ne(2) refl refl refl _ r _] nc True by simp
        then show ?thesis by simp
      qed
    qed
  qed
qed

text \<open>
  One append to the misspelled list: what it gives when the allocation is granted, and
  that it stays inside the block when the list is backed by its block.
\<close>

lemma record_misspelled_granted:
  assumes "set h \<subseteq> {True}" and "record_misspelled h m w a b = Some r"
  shows "fst r"
    and "mwords (fst (snd r)) = mwords m @ [\<lparr>word = strcpy w, startPos = a, endPos = b\<rparr>]"
    and "set (snd (snd r)) \<subseteq> {True}"
  using alloc_granted [OF assms(1)] assms
  by (auto simp: record_misspelled_def write_entry_def Let_def split: if_splits)

lemma record_misspelled_backed:
  assumes "length (mwords m) \<le> mcapacity m" and "list_backed m"
  shows "\<exists>r. record_misspelled h m w a b = Some r \<and>
           (fst r \<longrightarrow> length (mwords (fst (snd r))) \<le> mcapacity (fst (snd r)) \<and>
                      list_backed (fst (snd r)))"
  using assms
  by (auto simp: record_misspelled_def write_entry_def list_backed_def Let_def)

lemma check_loop_tokens:
  "set h \<subseteq> {True} \<Longrightarrow> check_loop h sc ptr pos = Some sc' \<Longrightarrow>
     mwords (misspelled sc') = mwords (misspelled sc) @ misspelled_of sc (tokens ptr pos)"
proof (induction h sc ptr pos arbitrary: sc' rule: check_loop.induct)
  case (1 h sc ptr pos)
  let ?sk = "skip_non_alpha ptr pos"
  let ?ex = "extract_word (fst ?sk) (snd ?sk) []"
  let ?w = "snd (snd ?ex)"
  let ?r = "record_misspelled h (misspelled sc) ?w (snd ?sk) (fst (snd ?ex))"
  note granted = "1.prems"(1) and run = "1.prems"(2)
  show ?case
  proof (cases "deref ptr = 0 \<or> deref (fst ?sk) = 0")
    case True
    with run have "sc' = sc"
      by (subst (asm) check_loop.simps) (auto simp: Let_def split: if_splits)
    moreover from True have "tokens ptr pos = []"
      by (subst tokens.simps) (auto simp: Let_def)
    ultimately show ?thesis by (simp add: misspelled_of_def)
  next
    case False
    then have ne: "deref ptr \<noteq> 0" "deref (fst ?sk) \<noteq> 0" by auto
    have tk: "tokens ptr pos = (?w, snd ?sk, fst (snd ?ex)) # tokens (fst ?ex) (fst (snd ?ex))"
      using ne by (subst tokens.simps) (simp add: Let_def)
    show ?thesis
    proof (cases "SpellChecker_IsWordCorrect sc (Some ?w)")
      case True
      then have "check_loop h sc (fst ?ex) (fst (snd ?ex)) = Some sc'"
        using ne run by (subst (asm) check_loop.simps) (simp add: Let_def)
      then have "mwords (misspelled sc') =
          mwords (misspelled sc) @ misspelled_of sc (tokens (fst ?ex) (fst (snd ?ex)))"
        using "1.IH"(2) [OF ne(1) refl ne(2) refl refl refl _ granted] True by simp
      then show ?thesis using True by (simp add: tk misspelled_of_def)
    next
      case False
      note nc = this
      from run ne nc obtain r where r: "?r = Some r"
        by (subst (asm) check_loop.simps) (auto simp: Let_def split: option.splits)
      note g = record_misspelled_granted [OF granted r]
      have "check_loop (snd (snd r)) (sc\<lparr>misspelled := fst (snd r)\<rparr>)
          (fst ?ex) (fst (snd ?ex)) = Some sc'"
        using run ne nc r g(1) by (subst (asm) check_loop.simps) (simp add: Let_def)
      then have "mwords (misspelled sc') =
          mwords (misspelled (sc\<lparr>misspelled := fst (snd r)\<rparr>)) @
            misspelled_of (sc\<lparr>misspelled := fst (snd r)\<rparr>) (tokens (fst ?ex) (fst (snd ?ex)))"
        using "1.IH"(1) [OF ne(1) refl ne(2) refl refl refl _ r _ g(3)] nc g(1) by simp
      then show ?thesis
        using nc g(2) by (simp add: tk misspelled_of_def IsWordCorrect_misspelled_update)
    qed
  qed
qed

text \<open>
  From a list that is backed by its block the scan is defined whatever the allocations
  do, and it leaves the list backed when they are granted.
\<close>

lemma check_loop_defined:
  "length (mwords (misspelled sc)) \<le> mcapacity (misspelled sc) \<Longrightarrow>
   list_backed (misspelled sc) \<Longrightarrow> \<exists>sc'. check_loop h sc ptr pos = Some sc'"
proof (induction h sc ptr pos rule: check_loop.induct)
  case (1 h sc ptr pos)
  let ?sk = "skip_non_alpha ptr pos"
  let ?ex = "extract_word (fst ?sk) (snd ?sk) []"
  let ?w = "snd (snd ?ex)"
  let ?r = "record_misspelled h (misspelled sc) ?w (snd ?sk) (fst (snd ?ex))"
  show ?case
  proof (cases "deref ptr = 0 \<or> deref (fst ?sk) = 0")
    case True
    then show ?thesis
      by (subst check_loop.simps) (auto simp: Let_def)
  next
    case False
    then have ne: "deref ptr \<noteq> 0" "deref (fst ?sk) \<noteq> 0" by auto
    show ?thesis
    proof (cases "SpellChecker_IsWordCorrect sc (Some ?w)")
      case True
      then have "check_loop h sc ptr pos = check_loop h sc (fst ?ex) (fst (snd ?ex))"
        using ne by (subst check_loop.simps) (simp add: Let_def)
      then show ?thesis
        using "1.IH"(2) [OF ne(1) refl ne(2) refl refl refl _ "1.prems"] True by simp
    next
      case False
      note nc = this
      from record_misspelled_backed [OF "1.prems", of h ?w "snd ?sk" "fst (snd ?ex)"]
      obtain r where r: "?r = Some r"
        and k: "fst r \<longrightarrow> length (mwords (fst (snd r))) \<le> mcapacity (fst (snd r)) \<and>
                  list_backed (fst (snd r))"
        by blast
      show ?thesis
      proof (cases "fst r")
        case False
        then show ?thesis
          using ne nc r by (subst check_loop.simps) (simp add: Let_def)
      next
        case True
        then have "check_loop h sc ptr pos =
            check_loop (snd (snd r)) (sc\<lparr>misspelled := fst (snd r)\<rparr>) (fst ?ex) (fst (snd ?ex))"
          using ne nc r by (subst check_loop.simps) (simp add: Let_def)
        moreover have "\<exists>sc'. check_loop (snd (snd r)) (sc\<lparr>misspelled := fst (snd r)\<rparr>)
            (fst ?ex) (fst (snd ?ex)) = Some sc'"
          using "1.IH"(1) [OF ne(1) refl ne(2) refl refl refl _ r _] nc True k by simp
        ultimately show ?thesis by simp
      qed
    qed
  qed
qed

lemma check_loop_backed:
  "set h \<subseteq> {True} \<Longrightarrow> length (mwords (misspelled sc)) \<le> mcapacity (misspelled sc) \<Longrightarrow>
   list_backed (misspelled sc) \<Longrightarrow> check_loop h sc ptr pos = Some sc' \<Longrightarrow>
   list_backed (misspelled sc')"
proof (induction h sc ptr pos arbitrary: sc' rule: check_loop.induct)
  case (1 h sc ptr pos)
  let ?sk = "skip_non_alpha ptr pos"
  let ?ex = "extract_word (fst ?sk) (snd ?sk) []"
  let ?w = "snd (snd ?ex)"
  let ?r = "record_misspelled h (misspelled sc) ?w (snd ?sk) (fst (snd ?ex))"
  note granted = "1.prems"(1) and inv = "1.prems"(2,3) and run = "1.prems"(4)
  show ?case
  proof (cases "deref ptr = 0 \<or> deref (fst ?sk) = 0")
    case True
    with run have "sc' = sc"
      by (subst (asm) check_loop.simps) (auto simp: Let_def split: if_splits)
    with inv show ?thesis by simp
  next
    case False
    then have ne: "deref ptr \<noteq> 0" "deref (fst ?sk) \<noteq> 0" by auto
    show ?thesis
    proof (cases "SpellChecker_IsWordCorrect sc (Some ?w)")
      case True
      then have "check_loop h sc (fst ?ex) (fst (snd ?ex)) = Some sc'"
        using ne run by (subst (asm) check_loop.simps) (simp add: Let_def)
      then show ?thesis
        using "1.IH"(2) [OF ne(1) refl ne(2) refl refl refl _ granted inv] True by simp
    next
      case False
      note nc = this
      from record_misspelled_backed [OF inv, of h ?w "snd ?sk" "fst (snd ?ex)"]
      obtain r where r: "?r = Some r"
        and k: "fst r \<longrightarrow> length (mwords (fst (snd r))) \<le> mcapacity (fst (snd r)) \<and>
                  list_backed (fst (snd r))"
        by blast
      note g = record_misspelled_granted [OF granted r]
      have "check_loop (snd (snd r)) (sc\<lparr>misspelled := fst (snd r)\<rparr>)
          (fst ?ex) (fst (snd ?ex)) = Some sc'"
        using run ne nc r g(1) by (subst (asm) check_loop.simps) (simp add: Let_def)
      then show ?thesis
        using "1.IH"(1) [OF ne(1) refl ne(2) refl refl refl _ r _ g(3)] nc g(1) k by simp
    qed
  qed
qed

lemma only_whitespace_skip:
  "only_whitespace t \<Longrightarrow> deref (fst (skip_non_alpha t pos)) = 0"
  by (induction t arbitrary: pos) (auto simp: isspace_def isalpha_def split: if_splits)

lemma tokens_whitespace: "deref t = 0 \<or> only_whitespace t \<Longrightarrow> tokens t pos = []"
  using only_whitespace_skip [of t pos] by (subst tokens.simps) (auto simp: Let_def)

text \<open>The same four facts for \<open>SpellChecker_Check\<close>, which empties the list first.\<close>

lemma Check_cases:
  "SpellChecker_Check h sc text = Some (sc\<lparr>misspelled := (misspelled sc)\<lparr>mwords := []\<rparr>\<rparr>) \<or>
   (\<exists>t. text = Some t \<and> enabled sc \<and> SpellChecker_Check h sc text =
           check_loop h (sc\<lparr>misspelled := (misspelled sc)\<lparr>mwords := []\<rparr>\<rparr>) t 0)"
  by (simp add: SpellChecker_Check_def Let_def split: option.split)

lemma Check_frame_eq:
  assumes "SpellChecker_Check h sc text = Some sc'"
  shows "sc' = sc\<lparr>misspelled := misspelled sc'\<rparr>"
proof -
  let ?sc0 = "sc\<lparr>misspelled := (misspelled sc)\<lparr>mwords := []\<rparr>\<rparr>"
  from Check_cases [of h sc "text"] assms
  consider "sc' = ?sc0" | t where "check_loop h ?sc0 t 0 = Some sc'"
    by auto
  then show ?thesis
  proof cases
    case 1
    then show ?thesis by simp
  next
    case 2
    then have "sc' = ?sc0\<lparr>misspelled := misspelled sc'\<rparr>" by (rule check_loop_frame)
    then show ?thesis by simp
  qed
qed

lemma Check_tokens:
  assumes "set h \<subseteq> {True}" and "SpellChecker_Check h sc text = Some sc'"
  shows "mwords (misspelled sc') =
     (case text of
        None \<Rightarrow> []
      | Some t \<Rightarrow> if enabled sc then misspelled_of sc (tokens t 0) else [])"
proof (cases "text")
  case None
  with assms(2) show ?thesis by (auto simp: SpellChecker_Check_def Let_def split: if_splits)
next
  case (Some t)
  let ?sc0 = "sc\<lparr>misspelled := (misspelled sc)\<lparr>mwords := []\<rparr>\<rparr>"
  have w: "deref t = 0 \<or> only_whitespace t \<Longrightarrow> misspelled_of sc (tokens t 0) = []"
    by (simp add: tokens_whitespace misspelled_of_def)
  show ?thesis
  proof (cases "enabled sc \<and> deref t \<noteq> 0 \<and> \<not> only_whitespace t")
    case True
    with assms(2) Some have "check_loop h ?sc0 t 0 = Some sc'"
      by (simp add: SpellChecker_Check_def Let_def)
    from check_loop_tokens [OF assms(1) this] True Some show ?thesis
      by (simp add: misspelled_of_misspelled_update)
  next
    case False
    with assms(2) Some have "sc' = ?sc0"
      by (auto simp: SpellChecker_Check_def Let_def split: if_splits)
    with False Some w show ?thesis by auto
  qed
qed

lemma Check_defined:
  assumes "list_backed (misspelled sc)"
  shows "\<exists>sc'. SpellChecker_Check h sc text = Some sc'"
proof -
  let ?sc0 = "sc\<lparr>misspelled := (misspelled sc)\<lparr>mwords := []\<rparr>\<rparr>"
  have "\<exists>sc'. check_loop h ?sc0 t 0 = Some sc'" for t
    using assms by (intro check_loop_defined) (simp_all add: list_backed_def)
  with Check_cases [of h sc "text"] show ?thesis by auto
qed

lemma Check_backed:
  assumes "set h \<subseteq> {True}" and "list_backed (misspelled sc)"
    and "SpellChecker_Check h sc text = Some sc'"
  shows "list_backed (misspelled sc')"
proof -
  let ?sc0 = "sc\<lparr>misspelled := (misspelled sc)\<lparr>mwords := []\<rparr>\<rparr>"
  have b: "list_backed (misspelled ?sc0)" "length (mwords (misspelled ?sc0)) \<le> mcapacity (misspelled ?sc0)"
    using assms(2) by (simp_all add: list_backed_def)
  from Check_cases [of h sc "text"] assms(3)
  consider "sc' = ?sc0" | t where "check_loop h ?sc0 t 0 = Some sc'"
    by auto
  then show ?thesis
  proof cases
    case 1
    with b show ?thesis by simp
  next
    case 2
    from check_loop_backed [OF assms(1) b(2) b(1) 2] show ?thesis .
  qed
qed

text \<open>
  A scan in which \<open>realloc\<close> is refused stops at the first misspelled word for which
  the list is full, with the capacity doubled and the block as it was. A scan that starts
  with the capacity above the size of the block is undefined as soon as the text has more
  misspelled words than the block has room for: the entry is written behind the block.
\<close>

lemma check_loop_refused:
  "\<not> fst (alloc h) \<Longrightarrow>
   mcapacity (misspelled sc) \<le> mblock (misspelled sc) \<Longrightarrow>
   length (mwords (misspelled sc)) \<le> mcapacity (misspelled sc) \<Longrightarrow>
   mcapacity (misspelled sc) <
     length (mwords (misspelled sc)) + length (misspelled_of sc (tokens ptr pos)) \<Longrightarrow>
   check_loop h sc ptr pos =
     Some (sc\<lparr>misspelled := (misspelled sc)
       \<lparr>mwords := mwords (misspelled sc) @
            take (mcapacity (misspelled sc) - length (mwords (misspelled sc)))
              (misspelled_of sc (tokens ptr pos)),
        mcapacity := 2 * mcapacity (misspelled sc)\<rparr>\<rparr>)"
proof (induction h sc ptr pos rule: check_loop.induct)
  case (1 h sc ptr pos)
  let ?sk = "skip_non_alpha ptr pos"
  let ?ex = "extract_word (fst ?sk) (snd ?sk) []"
  let ?w = "snd (snd ?ex)"
  let ?m = "misspelled sc"
  let ?e = "\<lparr>word = strcpy ?w, startPos = snd ?sk, endPos = fst (snd ?ex)\<rparr>"
  let ?r = "record_misspelled h ?m ?w (snd ?sk) (fst (snd ?ex))"
  note refused = "1.prems"(1) and inv = "1.prems"(2,3,4)
  have "tokens ptr pos \<noteq> []"
    using inv by (auto simp: misspelled_of_def)
  then have ne: "deref ptr \<noteq> 0" "deref (fst ?sk) \<noteq> 0"
    by (subst (asm) tokens.simps, auto simp: Let_def split: if_splits)+
  have tk: "tokens ptr pos = (?w, snd ?sk, fst (snd ?ex)) # tokens (fst ?ex) (fst (snd ?ex))"
    using ne by (subst tokens.simps) (simp add: Let_def)
  show ?case
  proof (cases "SpellChecker_IsWordCorrect sc (Some ?w)")
    case True
    then have "check_loop h sc ptr pos = check_loop h sc (fst ?ex) (fst (snd ?ex))"
      using ne by (subst check_loop.simps) (simp add: Let_def)
    moreover have "misspelled_of sc (tokens ptr pos) =
        misspelled_of sc (tokens (fst ?ex) (fst (snd ?ex)))"
      using True by (simp add: tk misspelled_of_def)
    ultimately show ?thesis
      using "1.IH"(2) [OF ne(1) refl ne(2) refl refl refl _ refused inv(1,2)] True inv(3) by simp
  next
    case False
    note nc = this
    have ms: "misspelled_of sc (tokens ptr pos) =
        ?e # misspelled_of sc (tokens (fst ?ex) (fst (snd ?ex)))"
      using nc by (simp add: tk misspelled_of_def)
    show ?thesis
    proof (cases "length (mwords ?m) < mcapacity ?m")
      case False
      with inv(2) have full: "length (mwords ?m) = mcapacity ?m" by simp
      then have "?r = Some (False, ?m\<lparr>mcapacity := mcapacity ?m * 2\<rparr>, snd (alloc h))"
        using refused by (simp add: record_misspelled_def Let_def)
      then have "check_loop h sc ptr pos =
          Some (sc\<lparr>misspelled := ?m\<lparr>mcapacity := mcapacity ?m * 2\<rparr>\<rparr>)"
        using ne nc by (subst check_loop.simps) (simp add: Let_def)
      then show ?thesis using full by (simp add: mult.commute)
    next
      case True
      let ?m1 = "?m\<lparr>mwords := mwords ?m @ [?e]\<rparr>"
      from True inv(1) have r: "?r = Some (True, ?m1, h)"
        by (simp add: record_misspelled_def write_entry_def Let_def)
      then have c: "check_loop h sc ptr pos =
          check_loop h (sc\<lparr>misspelled := ?m1\<rparr>) (fst ?ex) (fst (snd ?ex))"
        using ne nc by (subst check_loop.simps) (simp add: Let_def)
      have k: "mcapacity ?m - length (mwords ?m) = Suc (mcapacity ?m - Suc (length (mwords ?m)))"
        using True by simp
      have "check_loop h (sc\<lparr>misspelled := ?m1\<rparr>) (fst ?ex) (fst (snd ?ex)) =
          Some (sc\<lparr>misspelled := ?m1\<rparr>\<lparr>misspelled := (misspelled (sc\<lparr>misspelled := ?m1\<rparr>))
            \<lparr>mwords := mwords (misspelled (sc\<lparr>misspelled := ?m1\<rparr>)) @
               take (mcapacity (misspelled (sc\<lparr>misspelled := ?m1\<rparr>)) -
                     length (mwords (misspelled (sc\<lparr>misspelled := ?m1\<rparr>))))
                 (misspelled_of (sc\<lparr>misspelled := ?m1\<rparr>) (tokens (fst ?ex) (fst (snd ?ex)))),
              mcapacity := 2 * mcapacity (misspelled (sc\<lparr>misspelled := ?m1\<rparr>))\<rparr>\<rparr>)"
        using "1.IH"(1) [OF ne(1) refl ne(2) refl refl refl _ r _] nc True refused inv ms
        by (simp add: misspelled_of_misspelled_update)
      then show ?thesis
        unfolding c ms k by (simp add: misspelled_of_misspelled_update)
    qed
  qed
qed

lemma check_loop_overrun:
  "mblock (misspelled sc) < mcapacity (misspelled sc) \<Longrightarrow>
   length (mwords (misspelled sc)) \<le> mblock (misspelled sc) \<Longrightarrow>
   mblock (misspelled sc) <
     length (mwords (misspelled sc)) + length (misspelled_of sc (tokens ptr pos)) \<Longrightarrow>
   check_loop h sc ptr pos = None"
proof (induction h sc ptr pos rule: check_loop.induct)
  case (1 h sc ptr pos)
  let ?sk = "skip_non_alpha ptr pos"
  let ?ex = "extract_word (fst ?sk) (snd ?sk) []"
  let ?w = "snd (snd ?ex)"
  let ?m = "misspelled sc"
  let ?e = "\<lparr>word = strcpy ?w, startPos = snd ?sk, endPos = fst (snd ?ex)\<rparr>"
  let ?r = "record_misspelled h ?m ?w (snd ?sk) (fst (snd ?ex))"
  note inv = "1.prems"
  have "tokens ptr pos \<noteq> []"
    using inv by (auto simp: misspelled_of_def)
  then have ne: "deref ptr \<noteq> 0" "deref (fst ?sk) \<noteq> 0"
    by (subst (asm) tokens.simps, auto simp: Let_def split: if_splits)+
  have tk: "tokens ptr pos = (?w, snd ?sk, fst (snd ?ex)) # tokens (fst ?ex) (fst (snd ?ex))"
    using ne by (subst tokens.simps) (simp add: Let_def)
  show ?case
  proof (cases "SpellChecker_IsWordCorrect sc (Some ?w)")
    case True
    then have "check_loop h sc ptr pos = check_loop h sc (fst ?ex) (fst (snd ?ex))"
      using ne by (subst check_loop.simps) (simp add: Let_def)
    moreover have "misspelled_of sc (tokens ptr pos) =
        misspelled_of sc (tokens (fst ?ex) (fst (snd ?ex)))"
      using True by (simp add: tk misspelled_of_def)
    ultimately show ?thesis
      using "1.IH"(2) [OF ne(1) refl ne(2) refl refl refl _ inv(1,2)] True inv(3) by simp
  next
    case False
    note nc = this
    have ms: "misspelled_of sc (tokens ptr pos) =
        ?e # misspelled_of sc (tokens (fst ?ex) (fst (snd ?ex)))"
      using nc by (simp add: tk misspelled_of_def)
    show ?thesis
    proof (cases "length (mwords ?m) < mblock ?m")
      case False
      with inv(1,2) have "?r = None"
        by (simp add: record_misspelled_def write_entry_def Let_def)
      then show ?thesis
        using ne nc by (subst check_loop.simps) (simp add: Let_def)
    next
      case True
      let ?m1 = "?m\<lparr>mwords := mwords ?m @ [?e]\<rparr>"
      from True inv(1) have r: "?r = Some (True, ?m1, h)"
        by (simp add: record_misspelled_def write_entry_def Let_def)
      then have c: "check_loop h sc ptr pos =
          check_loop h (sc\<lparr>misspelled := ?m1\<rparr>) (fst ?ex) (fst (snd ?ex))"
        using ne nc by (subst check_loop.simps) (simp add: Let_def)
      have "check_loop h (sc\<lparr>misspelled := ?m1\<rparr>) (fst ?ex) (fst (snd ?ex)) = None"
        using "1.IH"(1) [OF ne(1) refl ne(2) refl refl refl _ r _] nc True inv ms
        by (simp add: misspelled_of_misspelled_update)
      with c show ?thesis by simp
    qed
  qed
qed

lemma tokens_text:
  assumes "tokens t pos \<noteq> []"
  shows "deref t \<noteq> 0 \<and> \<not> only_whitespace t"
  using assms tokens_whitespace [of t pos] by blast

lemma Check_refused:
  assumes "enabled sc" and "mcapacity (misspelled sc) \<le> mblock (misspelled sc)"
    and "mcapacity (misspelled sc) < length (misspelled_of sc (tokens t 0))"
  shows "SpellChecker_Check (False # h) sc (Some t) =
     Some (sc\<lparr>misspelled := (misspelled sc)
       \<lparr>mwords := take (mcapacity (misspelled sc)) (misspelled_of sc (tokens t 0)),
        mcapacity := 2 * mcapacity (misspelled sc)\<rparr>\<rparr>)"
proof -
  let ?sc0 = "sc\<lparr>misspelled := (misspelled sc)\<lparr>mwords := []\<rparr>\<rparr>"
  have "tokens t 0 \<noteq> []" using assms(3) by (auto simp: misspelled_of_def)
  from tokens_text [OF this] assms(1)
  have "SpellChecker_Check (False # h) sc (Some t) = check_loop (False # h) ?sc0 t 0"
    by (simp add: SpellChecker_Check_def Let_def)
  also have "\<dots> = Some (?sc0\<lparr>misspelled := (misspelled ?sc0)
       \<lparr>mwords := mwords (misspelled ?sc0) @
            take (mcapacity (misspelled ?sc0) - length (mwords (misspelled ?sc0)))
              (misspelled_of ?sc0 (tokens t 0)),
        mcapacity := 2 * mcapacity (misspelled ?sc0)\<rparr>\<rparr>)"
    using assms(2,3) by (intro check_loop_refused) (simp_all add: misspelled_of_misspelled_update)
  finally show ?thesis by (simp add: misspelled_of_misspelled_update)
qed

lemma Check_overrun:
  assumes "enabled sc" and "mblock (misspelled sc) < mcapacity (misspelled sc)"
    and "mblock (misspelled sc) < length (misspelled_of sc (tokens t 0))"
  shows "SpellChecker_Check h sc (Some t) = None"
proof -
  let ?sc0 = "sc\<lparr>misspelled := (misspelled sc)\<lparr>mwords := []\<rparr>\<rparr>"
  have "tokens t 0 \<noteq> []" using assms(3) by (auto simp: misspelled_of_def)
  from tokens_text [OF this] assms(1)
  have "SpellChecker_Check h sc (Some t) = check_loop h ?sc0 t 0"
    by (simp add: SpellChecker_Check_def Let_def)
  also have "\<dots> = None"
    using assms(2,3) by (intro check_loop_overrun) (simp_all add: misspelled_of_misspelled_update)
  finally show ?thesis .
qed

section \<open>Alphabetic runs longer than the capture buffer\<close>

lemma isalpha_nonzero: "isalpha c \<Longrightarrow> c \<noteq> 0"
  by (auto simp: isalpha_def)

lemma extract_word_run:
  "\<forall>c\<in>set run. isalpha (byte c) \<Longrightarrow> length w + length run \<le> 255 \<Longrightarrow>
     extract_word (run @ rest) pos w = extract_word rest (pos + of_nat (length run)) (w @ run)"
proof (induction run arbitrary: pos w)
  case Nil
  then show ?case by simp
next
  case (Cons c run)
  from Cons.prems have "extract_word ((c # run) @ rest) pos w = extract_word (run @ rest) (pos + 1) (w @ [c])"
    by (simp add: isalpha_nonzero)
  also have "\<dots> = extract_word rest (pos + 1 + of_nat (length run)) ((w @ [c]) @ run)"
    using Cons.prems by (intro Cons.IH) auto
  finally show ?case by (simp add: ac_simps)
qed

lemma extract_word_full: "length w = 255 \<Longrightarrow> extract_word rest pos w = (rest, pos, w)"
  by (cases rest) auto

lemma extract_word_long_run:
  assumes "\<forall>c\<in>set run. isalpha (byte c)" and "255 < length run"
  shows "extract_word (run @ post) pos [] = (drop 255 run @ post, pos + 255, take 255 run)"
proof -
  have a: "\<forall>c\<in>set (take 255 run). isalpha (byte c)"
    using assms(1) by (auto dest: in_set_takeD)
  have l: "length (take 255 run) = 255" using assms(2) by simp
  have "extract_word (take 255 run @ (drop 255 run @ post)) pos [] =
      extract_word (drop 255 run @ post) (pos + of_nat (length (take 255 run))) ([] @ take 255 run)"
    using a l by (intro extract_word_run) auto
  also have "\<dots> = (drop 255 run @ post, pos + 255, take 255 run)"
    using l by (simp add: extract_word_full)
  finally show ?thesis by (metis append_assoc append_take_drop_id)
qed

lemma skip_non_alpha_alpha: "isalpha (deref ptr) \<Longrightarrow> skip_non_alpha ptr pos = (ptr, pos)"
  by (cases ptr) auto

lemma tokens_alpha:
  assumes "isalpha (deref ptr)"
  shows "tokens ptr pos =
     (snd (snd (extract_word ptr pos [])), pos, fst (snd (extract_word ptr pos []))) #
       tokens (fst (extract_word ptr pos [])) (fst (snd (extract_word ptr pos [])))"
  using assms isalpha_nonzero [OF assms]
  by (subst tokens.simps) (simp add: skip_non_alpha_alpha Let_def)

lemma tokens_long_run:
  assumes "\<forall>c\<in>set run. isalpha (byte c)" and "255 < length run"
  shows "tokens (run @ post) pos =
     (take 255 run, pos, pos + 255) # tokens (drop 255 run @ post) (pos + 255)"
proof -
  from assms obtain c r where "run = c # r" by (cases run) auto
  with assms(1) have "isalpha (deref (run @ post))" by simp
  then show ?thesis
    by (simp add: tokens_alpha extract_word_long_run [OF assms])
qed

lemma skip_non_alpha_pos:
  "snd (skip_non_alpha p pos) + of_nat (length (fst (skip_non_alpha p pos))) = pos + of_nat (length p)"
  by (induction p pos rule: skip_non_alpha.induct) (auto simp: ac_simps)

lemma extract_word_pos:
  "fst (snd (extract_word p pos w)) + of_nat (length (fst (extract_word p pos w))) =
     pos + of_nat (length p)"
  by (induction p pos w rule: extract_word.induct) (auto simp: ac_simps)

lemma skip_non_alpha_set: "set (fst (skip_non_alpha p pos)) \<subseteq> set p"
  by (induction p pos rule: skip_non_alpha.induct) auto

lemma extract_word_set: "set (fst (extract_word p pos w)) \<subseteq> set p"
  by (induction p pos w rule: extract_word.induct) auto

lemma skip_non_alpha_last:
  "fst (skip_non_alpha p pos) \<noteq> [] \<Longrightarrow> last (fst (skip_non_alpha p pos)) = last p"
  by (induction p pos rule: skip_non_alpha.induct) (auto split: if_splits)

lemma extract_word_last:
  "p \<noteq> [] \<Longrightarrow> \<not> isalpha (byte (last p)) \<Longrightarrow>
     fst (extract_word p pos w) \<noteq> [] \<and> last (fst (extract_word p pos w)) = last p"
  by (induction p pos w rule: extract_word.induct) (auto split: if_splits)

lemma skip_non_alpha_append:
  "\<forall>c\<in>set p. byte c \<noteq> 0 \<Longrightarrow>
     skip_non_alpha (p @ rest) pos =
       (if fst (skip_non_alpha p pos) = [] then skip_non_alpha rest (pos + of_nat (length p))
        else (fst (skip_non_alpha p pos) @ rest, snd (skip_non_alpha p pos)))"
  by (induction p pos rule: skip_non_alpha.induct) (auto simp: ac_simps)

lemma extract_word_append:
  "fst (extract_word p pos w) \<noteq> [] \<Longrightarrow>
     extract_word (p @ rest) pos w =
       (fst (extract_word p pos w) @ rest, snd (extract_word p pos w))"
  by (induction p pos w rule: extract_word.induct) (auto split: if_splits)

lemma skip_non_alpha_idem:
  "skip_non_alpha (fst (skip_non_alpha p pos)) (snd (skip_non_alpha p pos)) = skip_non_alpha p pos"
  by (induction p pos rule: skip_non_alpha.induct) auto

lemma skip_non_alpha_end: "deref p = 0 \<Longrightarrow> skip_non_alpha p pos = (p, pos)"
  by (cases p) auto

lemma tokens_skip:
  "tokens ptr pos = tokens (fst (skip_non_alpha ptr pos)) (snd (skip_non_alpha ptr pos))"
proof (cases "deref ptr = 0")
  case True
  then show ?thesis by (simp add: skip_non_alpha_end)
next
  case False
  show ?thesis
  proof (cases "deref (fst (skip_non_alpha ptr pos)) = 0")
    case True
    with False show ?thesis
      by (subst tokens.simps, subst (2) tokens.simps) (simp add: Let_def)
  next
    case nz: False
    with False show ?thesis
      by (subst tokens.simps, subst (2) tokens.simps) (simp add: Let_def skip_non_alpha_idem)
  qed
qed

lemma tokens_append:
  "\<forall>c\<in>set pre. byte c \<noteq> 0 \<Longrightarrow> pre = [] \<or> \<not> isalpha (byte (last pre)) \<Longrightarrow>
     tokens (pre @ rest) pos = tokens pre pos @ tokens rest (pos + of_nat (length pre))"
proof (induction pre pos rule: tokens.induct)
  case (1 pre pos)
  let ?sk = "skip_non_alpha pre pos"
  let ?ex = "extract_word (fst ?sk) (snd ?sk) []"
  show ?case
  proof (cases "pre = []")
    case True
    then show ?thesis by (subst (2) tokens.simps) simp
  next
    case ne: False
    with "1.prems" have nz: "deref pre \<noteq> 0" and la: "\<not> isalpha (byte (last pre))"
      by (cases pre; auto)+
    show ?thesis
    proof (cases "fst ?sk = []")
      case True
      then have "tokens pre pos = []"
        by (subst tokens.simps) (simp add: Let_def)
      moreover have "tokens (pre @ rest) pos = tokens rest (pos + of_nat (length pre))"
        using True "1.prems"(1)
        by (subst tokens_skip, subst (2) tokens_skip) (simp add: skip_non_alpha_append)
      ultimately show ?thesis by simp
    next
      case p1: False
      have nul: "\<forall>c\<in>set (fst ?sk). byte c \<noteq> 0"
        using "1.prems"(1) skip_non_alpha_set [of pre pos] by blast
      with p1 have nz1: "deref (fst ?sk) \<noteq> 0" by (cases "fst ?sk") auto
      then have al: "isalpha (deref (fst ?sk))" by (rule skip_non_alpha_stops)
      have la1: "\<not> isalpha (byte (last (fst ?sk)))"
        using la p1 by (simp add: skip_non_alpha_last)
      note ex = extract_word_last [OF p1 la1, of "snd ?sk" "[]"]
      have tk: "tokens pre pos = (snd (snd ?ex), snd ?sk, fst (snd ?ex)) # tokens (fst ?ex) (fst (snd ?ex))"
        using nz nz1 by (subst tokens.simps) (simp add: Let_def)
      have al': "isalpha (deref (fst ?sk @ rest))"
        using al p1 by (cases "fst ?sk") auto
      have "tokens (pre @ rest) pos = tokens (fst ?sk @ rest) (snd ?sk)"
        using p1 "1.prems"(1) by (subst tokens_skip) (simp add: skip_non_alpha_append)
      also have "\<dots> = (snd (snd ?ex), snd ?sk, fst (snd ?ex)) # tokens (fst ?ex @ rest) (fst (snd ?ex))"
        using ex by (simp add: tokens_alpha [OF al'] extract_word_append)
      finally have tk': "tokens (pre @ rest) pos =
          (snd (snd ?ex), snd ?sk, fst (snd ?ex)) # tokens (fst ?ex @ rest) (fst (snd ?ex))" .
      have nul': "\<forall>c\<in>set (fst ?ex). byte c \<noteq> 0"
        using nul extract_word_set [of "fst ?sk" "snd ?sk" "[]"] by blast
      have la': "fst ?ex = [] \<or> \<not> isalpha (byte (last (fst ?ex)))"
        using ex la1 by simp
      have "tokens (fst ?ex @ rest) (fst (snd ?ex)) =
          tokens (fst ?ex) (fst (snd ?ex)) @ tokens rest (fst (snd ?ex) + of_nat (length (fst ?ex)))"
        using "1.IH" [OF nz refl nz1 refl refl nul' la'] .
      moreover have "fst (snd ?ex) + of_nat (length (fst ?ex)) = pos + of_nat (length pre)"
        using extract_word_pos [of "fst ?sk" "snd ?sk" "[]"] skip_non_alpha_pos [of pre pos]
        by simp
      ultimately show ?thesis by (simp add: tk tk')
    qed
  qed
qed

text \<open>
  C2 (as amended): in an enabled engine, a maximal alphabetic run of more than 255 bytes
  is split. Its first 255 bytes form one token, whose end offset is the start of the run
  plus 255 and not the end of the run; the scan resumes inside the run, so the next
  token starts at that offset. The misspelled list is made of the tokens before the run,
  this token, and the tokens of the rest of the run and of the text after it. The call is
  defined in every engine whose misspelled list is backed by its block, and the list is
  this one whenever the call is defined.
\<close>

theorem Check_long_run:
  assumes "enabled sc"
    and "\<forall>c\<in>set pre. byte c \<noteq> 0" and "pre = [] \<or> \<not> isalpha (byte (last pre))"
    and "\<forall>c\<in>set run. isalpha (byte c)" and "255 < length run"
  shows "(list_backed (misspelled sc) \<longrightarrow>
       SpellChecker_Check (replicate n True) sc (Some (pre @ run @ post)) \<noteq> None) \<and>
    (SpellChecker_Check (replicate n True) sc (Some (pre @ run @ post)) \<noteq> None \<longrightarrow>
       map_option (mwords \<circ> misspelled)
         (SpellChecker_Check (replicate n True) sc (Some (pre @ run @ post))) =
       Some (misspelled_of sc (tokens pre 0) @
         misspelled_of sc [(take 255 run, of_nat (length pre), of_nat (length pre) + 255)] @
         misspelled_of sc (tokens (drop 255 run @ post) (of_nat (length pre) + 255)))) \<and>
    (\<exists>w e ts. tokens (drop 255 run @ post) (of_nat (length pre) + 255) =
       (w, of_nat (length pre) + 255, e) # ts)"
proof -
  let ?c = "SpellChecker_Check (replicate n True) sc (Some (pre @ run @ post))"
  have granted: "set (replicate n True) \<subseteq> {True}" by auto
  have tk: "tokens (pre @ run @ post) 0 =
      tokens pre 0 @ (take 255 run, of_nat (length pre), of_nat (length pre) + 255) #
        tokens (drop 255 run @ post) (of_nat (length pre) + 255)"
    using tokens_append [OF assms(2,3), of "run @ post" 0] tokens_long_run [OF assms(4,5)]
    by simp
  have a: "list_backed (misspelled sc) \<longrightarrow> ?c \<noteq> None"
    using Check_defined [of sc "replicate n True" "Some (pre @ run @ post)"] by auto
  have b: "?c \<noteq> None \<longrightarrow> map_option (mwords \<circ> misspelled) ?c =
       Some (misspelled_of sc (tokens pre 0) @
         misspelled_of sc [(take 255 run, of_nat (length pre), of_nat (length pre) + 255)] @
         misspelled_of sc (tokens (drop 255 run @ post) (of_nat (length pre) + 255)))"
  proof
    assume "?c \<noteq> None"
    then obtain sc' where c: "?c = Some sc'" by auto
    from Check_tokens [OF granted c] assms(1) tk
    have "mwords (misspelled sc') =
        misspelled_of sc (tokens pre 0) @
        misspelled_of sc [(take 255 run, of_nat (length pre), of_nat (length pre) + 255)] @
        misspelled_of sc (tokens (drop 255 run @ post) (of_nat (length pre) + 255))"
      by (simp add: misspelled_of_def)
    then show "map_option (mwords \<circ> misspelled) ?c =
       Some (misspelled_of sc (tokens pre 0) @
         misspelled_of sc [(take 255 run, of_nat (length pre), of_nat (length pre) + 255)] @
         misspelled_of sc (tokens (drop 255 run @ post) (of_nat (length pre) + 255)))"
      unfolding c by simp
  qed
  have "\<exists>w e ts. tokens (drop 255 run @ post) (of_nat (length pre) + 255) =
       (w, of_nat (length pre) + 255, e) # ts"
  proof -
    from assms(5) obtain c r where d: "drop 255 run = c # r" by (cases "drop 255 run") auto
    then have "c \<in> set run" by (metis in_set_dropD list.set_intros(1))
    with assms(4) d have "isalpha (deref (drop 255 run @ post))" by simp
    from tokens_alpha [OF this] show ?thesis by blast
  qed
  with a b show ?thesis by blast
qed

lemma IsWordCorrect_empty_engine:
  "SpellChecker_IsWordCorrect (engine [] [] []) (Some w) = (strlen w = 0)"
  by (simp add: SpellChecker_IsWordCorrect_def BinarySearchDictionary_def dict_count_def
      engine_def bsearch_loop.simps)

lemma strlen_replicate_a: "strlen (replicate n (CHR ''a'')) = n"
  by (simp add: strlen_def c_str_def byte_def)

lemma strcpy_replicate_a: "strcpy (replicate n (CHR ''a'')) = replicate n (CHR ''a'')"
  by (simp add: strcpy_def c_str_def byte_def)

lemma misspelled_of_empty_engine_a:
  "0 < n \<Longrightarrow> misspelled_of (engine [] [] []) [(replicate n (CHR ''a''), a, b)] =
     [\<lparr>word = replicate n (CHR ''a''), startPos = a, endPos = b\<rparr>]"
  by (simp add: misspelled_of_def IsWordCorrect_empty_engine strlen_replicate_a strcpy_replicate_a)

lemma engine_backed: "list_backed (misspelled (engine m u i))"
  by (simp add: engine_def list_backed_def)

theorem Check_long_run_witness:
  "map_option (mwords \<circ> misspelled) (SpellChecker_Check (replicate 0 True) (engine [] [] [])
      (Some (''x '' @ replicate 256 (CHR ''a'') @ []))) =
     Some [\<lparr>word = ''x'', startPos = 0, endPos = 1\<rparr>,
      \<lparr>word = replicate 255 (CHR ''a''), startPos = 2, endPos = 257\<rparr>,
      \<lparr>word = ''a'', startPos = 257, endPos = 258\<rparr>]"
proof -
  have h1: "enabled (engine [] [] [])" by (simp add: engine_def)
  have h2: "\<forall>c\<in>set ''x ''. byte c \<noteq> 0" by (simp add: byte_def)
  have h3: "''x '' = [] \<or> \<not> isalpha (byte (last ''x ''))" by (simp add: byte_def isalpha_def)
  have h4: "\<forall>c\<in>set (replicate 256 (CHR ''a'')). isalpha (byte c)"
    by (simp add: byte_def isalpha_def)
  have h5: "255 < length (replicate 256 (CHR ''a''))" by simp
  have t1: "tokens ''x '' 0 = [(''x'', 0, 1)]" by code_simp
  have t2: "tokens ''a'' 257 = [(''a'', 257, 258)]" by code_simp
  have m1: "misspelled_of (engine [] [] []) [(''x'', 0, 1)] =
      [\<lparr>word = ''x'', startPos = 0, endPos = 1\<rparr>]" by code_simp
  have m2: "misspelled_of (engine [] [] []) [(''a'', 257, 258)] =
      [\<lparr>word = ''a'', startPos = 257, endPos = 258\<rparr>]" by code_simp
  have d: "drop 255 (replicate 256 (CHR ''a'')) = ''a''" by simp
  have t: "take 255 (replicate 256 (CHR ''a'')) = replicate 255 (CHR ''a'')" by simp
  note r = Check_long_run [OF h1 h2 h3 h4 h5, of 0 "[]"]
  note r1 = r [THEN conjunct1, THEN mp, OF engine_backed]
  note r2 = r [THEN conjunct2, THEN conjunct1, THEN mp, OF r1]
  show ?thesis
    using r2 by (simp add: d t t1 t2 m1 m2 misspelled_of_empty_engine_a)
qed

theorem Check_long_run_counterexample:
  "map_option (mwords \<circ> misspelled) (SpellChecker_Check [] (engine [] [] [])
      (Some (replicate 256 (CHR ''a'')))) =
     Some [\<lparr>word = replicate 255 (CHR ''a''), startPos = 0, endPos = 255\<rparr>,
      \<lparr>word = ''a'', startPos = 255, endPos = 256\<rparr>]"
  by code_simp

section \<open>Checking a text twice\<close>

text \<open>A text of \<open>n\<close> words, and the number of entries it adds where every word is misspelled.\<close>

lemma tokens_words:
  assumes "\<forall>c\<in>set w. isalpha (byte c)" and "w \<noteq> []" and "length w \<le> 255"
  shows "map fst (tokens (concat (replicate n (w @ '' ''))) pos) = replicate n w"
proof (induction n arbitrary: pos)
  case 0
  show ?case by (subst tokens.simps) simp
next
  case (Suc n)
  let ?rest = "concat (replicate n (w @ '' ''))"
  from assms(2) obtain c r where w: "w = c # r" by (cases w) auto
  with assms(1) have al: "isalpha (deref (w @ '' '' @ ?rest))" by simp
  have sp: "\<not> isalpha (byte CHR '' '')" by (simp add: byte_def isalpha_def)
  have ex: "extract_word (w @ '' '' @ ?rest) pos [] =
      ('' '' @ ?rest, pos + of_nat (length w), w)"
    using extract_word_run [OF assms(1), of "[]" "'' '' @ ?rest" pos] assms(3) sp by simp
  have "tokens (w @ '' '' @ ?rest) pos =
      (w, pos, pos + of_nat (length w)) # tokens ('' '' @ ?rest) (pos + of_nat (length w))"
    using tokens_alpha [OF al, of pos] ex by simp
  moreover have "tokens ('' '' @ ?rest) (pos + of_nat (length w)) =
      tokens ?rest (pos + of_nat (length w) + 1)"
  proof -
    have "skip_non_alpha ('' '' @ ?rest) (pos + of_nat (length w)) =
        skip_non_alpha ?rest (pos + of_nat (length w) + 1)"
      using sp by (simp add: byte_def)
    then show ?thesis
      using tokens_skip [of "'' '' @ ?rest" "pos + of_nat (length w)"]
        tokens_skip [of ?rest "pos + of_nat (length w) + 1"]
      by simp
  qed
  ultimately show ?case using Suc.IH by simp
qed

lemma misspelled_of_length:
  "\<forall>w\<in>set (map fst ts). \<not> SpellChecker_IsWordCorrect sc (Some w) \<Longrightarrow>
     length (misspelled_of sc ts) = length ts"
  by (simp add: misspelled_of_def)

lemma misspelled_of_words:
  assumes "\<forall>c\<in>set w. isalpha (byte c)" and "w \<noteq> []" and "length w \<le> 255"
    and "\<not> SpellChecker_IsWordCorrect sc (Some w)"
  shows "length (misspelled_of sc (tokens (concat (replicate n (w @ '' ''))) pos)) = n"
proof -
  have "\<forall>v\<in>set (map fst (tokens (concat (replicate n (w @ '' ''))) pos)).
      \<not> SpellChecker_IsWordCorrect sc (Some v)"
    unfolding tokens_words [OF assms(1,2,3)] using assms(4) by simp
  from misspelled_of_length [OF this]
  have "length (misspelled_of sc (tokens (concat (replicate n (w @ '' ''))) pos)) =
      length (map fst (tokens (concat (replicate n (w @ '' ''))) pos))"
    by simp
  then show ?thesis unfolding tokens_words [OF assms(1,2,3)] by simp
qed

text \<open>
  The call in which \<open>realloc\<close> is refused, followed by a second call with the same
  text: the first leaves the capacity above the size of the block, the second is undefined.
\<close>

lemma Check_twice_overrun:
  assumes "enabled sc" and "mcapacity (misspelled sc) = mblock (misspelled sc)"
    and "mcapacity (misspelled sc) < length (misspelled_of sc (tokens t 0))"
    and "0 < mcapacity (misspelled sc)"
  shows "SpellChecker_Check (False # h1) sc (Some t) =
      Some (sc\<lparr>misspelled := (misspelled sc)
        \<lparr>mwords := take (mcapacity (misspelled sc)) (misspelled_of sc (tokens t 0)),
         mcapacity := 2 * mcapacity (misspelled sc)\<rparr>\<rparr>)"
    and "Check_twice (False # h1) h2 sc (Some t) = None"
proof -
  let ?sc1 = "sc\<lparr>misspelled := (misspelled sc)
        \<lparr>mwords := take (mcapacity (misspelled sc)) (misspelled_of sc (tokens t 0)),
         mcapacity := 2 * mcapacity (misspelled sc)\<rparr>\<rparr>"
  show a: "SpellChecker_Check (False # h1) sc (Some t) = Some ?sc1"
    using assms by (intro Check_refused) simp_all
  have "SpellChecker_Check h2 ?sc1 (Some t) = None"
    using assms by (intro Check_overrun) (simp_all add: misspelled_of_misspelled_update)
  then show "Check_twice (False # h1) h2 sc (Some t) = None"
    by (simp add: Check_twice_def a)
qed

text \<open>
  C9: \<open>SpellChecker_Check\<close> does not always leave the word sets alone. The engine is
  the one \<open>SpellChecker_Create\<close> returns with the word \<open>hello\<close> learned, the text has
  101 misspelled words. The call in which \<open>realloc\<close> is refused returns with 100
  entries, the user dictionary as it was, the capacity 200 and the block of 100 entries;
  the next call with the same text writes entry 100 behind that block, so what it does
  to the rest of the engine is undefined.
\<close>

theorem Check_writes_behind_block:
  "map_option (length \<circ> mwords \<circ> misspelled)
     (SpellChecker_Check [False] (engine [] [''hello''] [])
        (Some (concat (replicate 101 ''XYZ '')))) = Some 100 \<and>
   map_option (mcapacity \<circ> misspelled)
     (SpellChecker_Check [False] (engine [] [''hello''] [])
        (Some (concat (replicate 101 ''XYZ '')))) = Some 200 \<and>
   map_option (mblock \<circ> misspelled)
     (SpellChecker_Check [False] (engine [] [''hello''] [])
        (Some (concat (replicate 101 ''XYZ '')))) = Some 100 \<and>
   map_option (words \<circ> userDictionary)
     (SpellChecker_Check [False] (engine [] [''hello''] [])
        (Some (concat (replicate 101 ''XYZ '')))) = Some [''hello''] \<and>
   Check_twice [False] [] (engine [] [''hello''] [])
     (Some (concat (replicate 101 ''XYZ ''))) = None"
proof -
  let ?sc = "engine [] [''hello''] []"
  let ?t = "concat (replicate 101 (''XYZ'' @ '' ''))"
  have w: "\<forall>c\<in>set ''XYZ''. isalpha (byte c)" "''XYZ'' \<noteq> []" "length ''XYZ'' \<le> 255"
    by (simp_all add: byte_def isalpha_def)
  have nc: "\<not> SpellChecker_IsWordCorrect ?sc (Some ''XYZ'')" by code_simp
  have n: "length (misspelled_of ?sc (tokens ?t 0)) = 101"
    by (rule misspelled_of_words [OF w nc])
  have e: "enabled ?sc" "mcapacity (misspelled ?sc) = mblock (misspelled ?sc)"
    "mcapacity (misspelled ?sc) < length (misspelled_of ?sc (tokens ?t 0))"
    "0 < mcapacity (misspelled ?sc)"
    unfolding n by (simp_all add: engine_def)
  note r = Check_twice_overrun(1) [OF e, of "[]"] Check_twice_overrun(2) [OF e, of "[]" "[]"]
  have c: "mcapacity (misspelled ?sc) = 100" "mblock (misspelled ?sc) = 100"
    "words (userDictionary ?sc) = [''hello'']"
    by (simp_all add: engine_def)
  show ?thesis
    using r n c by simp
qed

text \<open>
  C4 (as amended): when the reallocations of the misspelled list are granted, two
  calls of \<open>SpellChecker_Check\<close> in succession with the same text leave the misspelled
  list that a single call leaves: the same entries, with the same offsets, in the same
  order. The two calls are defined in every engine whose misspelled list is backed by
  its block, and the lists agree whenever the two calls are defined.
\<close>

theorem Check_idempotent:
  "(list_backed (misspelled sc) \<longrightarrow>
      Check_twice (replicate n1 True) (replicate n2 True) sc text \<noteq> None) \<and>
   (Check_twice (replicate n1 True) (replicate n2 True) sc text \<noteq> None \<longrightarrow>
      map_option (mwords \<circ> misspelled)
        (Check_twice (replicate n1 True) (replicate n2 True) sc text) =
      map_option (mwords \<circ> misspelled) (SpellChecker_Check (replicate n1 True) sc text))"
proof -
  have granted: "set (replicate n True) \<subseteq> {True}" for n by auto
  have a: "list_backed (misspelled sc) \<longrightarrow>
      Check_twice (replicate n1 True) (replicate n2 True) sc text \<noteq> None"
  proof
    assume b: "list_backed (misspelled sc)"
    from Check_defined [OF b] obtain sc1
      where c1: "SpellChecker_Check (replicate n1 True) sc text = Some sc1" by blast
    from Check_backed [OF granted b c1] have "list_backed (misspelled sc1)" .
    from Check_defined [OF this] obtain sc2
      where "SpellChecker_Check (replicate n2 True) sc1 text = Some sc2" by blast
    with c1 show "Check_twice (replicate n1 True) (replicate n2 True) sc text \<noteq> None"
      by (simp add: Check_twice_def)
  qed
  have b: "Check_twice (replicate n1 True) (replicate n2 True) sc text \<noteq> None \<longrightarrow>
      map_option (mwords \<circ> misspelled)
        (Check_twice (replicate n1 True) (replicate n2 True) sc text) =
      map_option (mwords \<circ> misspelled) (SpellChecker_Check (replicate n1 True) sc text)"
  proof
    assume "Check_twice (replicate n1 True) (replicate n2 True) sc text \<noteq> None"
    then obtain sc1 sc2
      where c1: "SpellChecker_Check (replicate n1 True) sc text = Some sc1"
        and c2: "SpellChecker_Check (replicate n2 True) sc1 text = Some sc2"
      by (auto simp: Check_twice_def split: option.splits)
    from Check_frame_eq [OF c1] obtain m where sc1: "sc1 = sc\<lparr>misspelled := m\<rparr>" by blast
    have "mwords (misspelled sc2) = mwords (misspelled sc1)"
      using Check_tokens [OF granted c1] Check_tokens [OF granted c2]
      by (simp add: sc1 misspelled_of_misspelled_update split: option.split)
    then show "map_option (mwords \<circ> misspelled)
        (Check_twice (replicate n1 True) (replicate n2 True) sc text) =
      map_option (mwords \<circ> misspelled) (SpellChecker_Check (replicate n1 True) sc text)"
      by (simp add: Check_twice_def c1 c2)
  qed
  from a b show ?thesis by (rule conjI)
qed

theorem Check_idempotent_witness:
  "map_option (mwords \<circ> misspelled)
     (Check_twice (replicate 0 True) (replicate 1 True) (engine [] [''the''] []) (Some ''teh the cta'')) =
   Some [\<lparr>word = ''teh'', startPos = 0, endPos = 3\<rparr>,
         \<lparr>word = ''cta'', startPos = 8, endPos = 11\<rparr>]"
proof -
  note r = Check_idempotent [of "engine [] [''the''] []" 0 1 "Some ''teh the cta''"]
  note r1 = r [THEN conjunct1, THEN mp, OF engine_backed]
  note r2 = r [THEN conjunct2, THEN mp, OF r1]
  have "map_option (mwords \<circ> misspelled)
      (SpellChecker_Check (replicate 0 True) (engine [] [''the''] []) (Some ''teh the cta'')) =
    Some [\<lparr>word = ''teh'', startPos = 0, endPos = 3\<rparr>,
          \<lparr>word = ''cta'', startPos = 8, endPos = 11\<rparr>]"
    by code_simp
  with r2 show ?thesis by simp
qed

theorem Check_idempotent_counterexample:
  "Check_twice [False] [] (engine [] [] []) (Some (concat (replicate 101 ''q ''))) = None \<and>
   map_option (length \<circ> mwords \<circ> misspelled)
     (SpellChecker_Check [False] (engine [] [] []) (Some (concat (replicate 101 ''q '')))) =
     Some 100 \<and>
   map_option (length \<circ> mwords \<circ> misspelled)
     (SpellChecker_Check [] (engine [] [] []) (Some (concat (replicate 101 ''q '')))) =
     Some 101"
proof -
  let ?sc = "engine [] [] []"
  let ?t = "concat (replicate 101 (''q'' @ '' ''))"
  have w: "\<forall>c\<in>set ''q''. isalpha (byte c)" "''q'' \<noteq> []" "length ''q'' \<le> 255"
    by (simp_all add: byte_def isalpha_def)
  have nc: "\<not> SpellChecker_IsWordCorrect ?sc (Some ''q'')" by code_simp
  have n: "length (misspelled_of ?sc (tokens ?t 0)) = 101"
    by (rule misspelled_of_words [OF w nc])
  have e: "enabled ?sc" "mcapacity (misspelled ?sc) = mblock (misspelled ?sc)"
    "mcapacity (misspelled ?sc) < length (misspelled_of ?sc (tokens ?t 0))"
    "0 < mcapacity (misspelled ?sc)"
    unfolding n by (simp_all add: engine_def)
  note r = Check_twice_overrun(1) [OF e, of "[]"] Check_twice_overrun(2) [OF e, of "[]" "[]"]
  have c: "mcapacity (misspelled ?sc) = 100" by (simp add: engine_def)
  from Check_defined [OF engine_backed, of "[]" "[]" "[]" "[]" "Some ?t"]
  obtain sc' where d: "SpellChecker_Check [] ?sc (Some ?t) = Some sc'" by blast
  have "mwords (misspelled sc') = misspelled_of ?sc (tokens ?t 0)"
    using Check_tokens [OF _ d] e(1) by simp
  then have "length (mwords (misspelled sc')) = 101" using n by simp
  with r n c d show ?thesis by simp
qed

section \<open>Learning a word keeps it findable\<close>

lemma qsort_insert_mset: "mset (qsort_insert cmp x ys) = add_mset x (mset ys)"
  by (induction ys) auto

lemma qsort_mset: "mset (qsort cmp xs) = mset xs"
  by (induction xs) (auto simp: qsort_def qsort_insert_mset)

lemma qsort_insert_set: "set (qsort_insert cmp x ys) = insert x (set ys)"
  by (induction ys) auto

lemma qsort_insert_sorted:
  "sorted (map key ys) \<Longrightarrow> sorted (map key (qsort_insert DictionaryComparator x ys))"
proof (induction ys)
  case Nil
  then show ?case by simp
next
  case (Cons y ys)
  have le: "DictionaryComparator x y \<le> 0 \<longleftrightarrow> key x \<le> key y"
    by (simp add: DictionaryComparator_eq strcasecmp_custom_le)
  show ?case
  proof (cases "DictionaryComparator x y \<le> 0")
    case True
    with Cons.prems le show ?thesis by auto
  next
    case False
    with le have "key y \<le> key x" by simp
    with False Cons show ?thesis by (auto simp: qsort_insert_set)
  qed
qed

lemma qsort_sorted: "dict_sorted (qsort DictionaryComparator xs)"
  unfolding dict_sorted_key
  by (induction xs) (auto simp: qsort_def qsort_insert_sorted)

lemma dict_sorted_Nil: "dict_sorted []"
  by (simp add: dict_sorted_def)

lemma sort_dictionary_sorted: "dict_sorted (words (sort_dictionary dict))"
  by (simp add: sort_dictionary_def qsort_sorted dict_count_def dict_sorted_Nil)

lemma mset_add_set: "mset xs = add_mset x (mset ys) \<Longrightarrow> set xs = insert x (set ys)"
  by (metis set_mset_add_mset_insert set_mset_mset)

lemma sort_dictionary_mset: "mset (words (sort_dictionary dict)) = mset (words dict)"
  by (simp add: sort_dictionary_def qsort_mset)

lemma sort_dictionary_frame:
  "dict_count (sort_dictionary dict) = dict_count dict"
  "capacity (sort_dictionary dict) = capacity dict"
  "block (sort_dictionary dict) = block dict"
  using mset_eq_length [OF qsort_mset [of DictionaryComparator "words dict"]]
  by (simp_all add: sort_dictionary_def dict_count_def)

lemma grow_words: "words (fst (snd (grow h dict))) = words dict"
  by (simp add: grow_def Let_def)

lemma grow_granted:
  "set h \<subseteq> {True} \<Longrightarrow> fst (grow h dict) \<and> set (snd (snd (grow h dict))) \<subseteq> {True}"
  using alloc_granted [of h] by (auto simp: grow_def Let_def)

text \<open>
  After \<open>grow\<close> went through on an array that is backed by its block, the slot
  \<open>words[count]\<close> is inside the block; \<open>store\<close> is defined there and leaves the
  array backed.
\<close>

lemma grow_room:
  assumes "dict_backed dict" and "fst (grow h dict)"
  shows "dict_count (fst (snd (grow h dict))) < capacity (fst (snd (grow h dict)))"
    and "capacity (fst (snd (grow h dict))) \<le> block (fst (snd (grow h dict)))"
  using assms by (auto simp: grow_def dict_backed_def dict_count_def Let_def split: if_splits)

lemma store_Some:
  assumes "store h dict w = Some st"
  shows "words (fst (snd st)) = (if fst st then words dict @ [strcpy w] else words dict)"
    and "capacity (fst (snd st)) = capacity dict" and "block (fst (snd st)) = block dict"
    and "set h \<subseteq> {True} \<longrightarrow> fst st \<and> set (snd (snd st)) \<subseteq> {True}"
  using assms alloc_granted [of h] by (auto simp: store_def Let_def split: if_splits)

lemma store_room:
  "dict_count dict < block dict \<Longrightarrow> \<exists>st. store h dict w = Some st"
  by (cases "fst (alloc h)") (auto simp: store_def Let_def)

lemma BinarySearchDictionary_words:
  "words d = words d' \<Longrightarrow> BinarySearchDictionary d w = BinarySearchDictionary d' w"
  by (simp add: BinarySearchDictionary_def dict_count_def)

lemma key_strcpy: "key (strcpy w) = key w"
  by (simp add: key_def strcpy_def c_str_def)

lemma contains_nocase_mset:
  "mset ws = mset ws' \<Longrightarrow> contains_nocase ws w = contains_nocase ws' w"
  by (auto simp: contains_nocase_def list_ex_iff dest: mset_eq_setD)

text \<open>
  What one call of \<open>SpellChecker_AddToUserDictionary\<close> does to the words of the user
  dictionary when it is defined, and that it is defined and leaves the dictionary backed
  when the dictionary is backed by its block.
\<close>

lemma AddToUserDictionary_cases:
  assumes "SpellChecker_AddToUserDictionary h sc wp = Some sc'"
  shows "words (userDictionary sc') = words (userDictionary sc) \<or>
   (\<exists>w. wp = Some w \<and> dict_sorted (words (userDictionary sc')) \<and>
      mset (words (userDictionary sc')) = add_mset (strcpy w) (mset (words (userDictionary sc))))"
proof (cases wp)
  case None
  with assms show ?thesis by (simp add: SpellChecker_AddToUserDictionary_def)
next
  case (Some w)
  let ?g = "grow h (userDictionary sc)"
  show ?thesis
  proof (cases "BinarySearchDictionary (userDictionary sc) w \<or> \<not> fst ?g")
    case True
    with assms Some show ?thesis
      by (auto simp: SpellChecker_AddToUserDictionary_def Let_def grow_words split: if_splits)
  next
    case False
    with assms Some obtain st where st: "store (snd (snd ?g)) (fst (snd ?g)) w = Some st"
      by (auto simp: SpellChecker_AddToUserDictionary_def Let_def split: option.splits)
    from assms Some False st
    have sc': "sc' = (if fst st then sc\<lparr>userDictionary := sort_dictionary (fst (snd st))\<rparr>
                     else sc\<lparr>userDictionary := fst (snd st)\<rparr>)"
      by (auto simp: SpellChecker_AddToUserDictionary_def Let_def)
    from store_Some(1) [OF st] sc' Some show ?thesis
      by (auto simp: grow_words sort_dictionary_sorted sort_dictionary_mset)
  qed
qed

lemma AddToUserDictionary_granted:
  assumes "set h \<subseteq> {True}" and "\<not> BinarySearchDictionary (userDictionary sc) w"
    and "SpellChecker_AddToUserDictionary h sc (Some w) = Some sc'"
  shows "dict_sorted (words (userDictionary sc'))"
    and "mset (words (userDictionary sc')) = add_mset (strcpy w) (mset (words (userDictionary sc)))"
proof -
  let ?g = "grow h (userDictionary sc)"
  note g = grow_granted [OF assms(1), of "userDictionary sc"]
  from assms(2,3) g obtain st where st: "store (snd (snd ?g)) (fst (snd ?g)) w = Some st"
    by (auto simp: SpellChecker_AddToUserDictionary_def Let_def split: option.splits)
  from store_Some(4) [OF st] g have f: "fst st" by simp
  from assms(2,3) g st f
  have sc': "sc' = sc\<lparr>userDictionary := sort_dictionary (fst (snd st))\<rparr>"
    by (simp add: SpellChecker_AddToUserDictionary_def Let_def)
  show "dict_sorted (words (userDictionary sc'))"
    by (simp add: sc' sort_dictionary_sorted)
  show "mset (words (userDictionary sc')) = add_mset (strcpy w) (mset (words (userDictionary sc)))"
    using store_Some(1) [OF st] f by (simp add: sc' sort_dictionary_mset grow_words)
qed

lemma AddToUserDictionary_defined:
  assumes "dict_backed (userDictionary sc)"
  shows "\<exists>sc'. SpellChecker_AddToUserDictionary h sc wp = Some sc'"
proof (cases wp)
  case None
  then show ?thesis by (simp add: SpellChecker_AddToUserDictionary_def)
next
  case (Some w)
  let ?g = "grow h (userDictionary sc)"
  show ?thesis
  proof (cases "BinarySearchDictionary (userDictionary sc) w \<or> \<not> fst ?g")
    case True
    with Some show ?thesis
      by (auto simp: SpellChecker_AddToUserDictionary_def Let_def)
  next
    case False
    then have "fst ?g" by simp
    from grow_room [OF assms this] have "dict_count (fst (snd ?g)) < block (fst (snd ?g))"
      by simp
    from store_room [OF this] obtain st where "store (snd (snd ?g)) (fst (snd ?g)) w = Some st"
      by blast
    with Some False show ?thesis
      by (simp add: SpellChecker_AddToUserDictionary_def Let_def)
  qed
qed

lemma AddToUserDictionary_backed:
  assumes "set h \<subseteq> {True}" and "dict_backed (userDictionary sc)"
    and "SpellChecker_AddToUserDictionary h sc wp = Some sc'"
  shows "dict_backed (userDictionary sc')"
proof (cases wp)
  case None
  with assms show ?thesis by (simp add: SpellChecker_AddToUserDictionary_def)
next
  case (Some w)
  let ?g = "grow h (userDictionary sc)"
  note g = grow_granted [OF assms(1), of "userDictionary sc"]
  show ?thesis
  proof (cases "BinarySearchDictionary (userDictionary sc) w")
    case True
    with assms Some show ?thesis by (simp add: SpellChecker_AddToUserDictionary_def)
  next
    case False
    from False assms(3) Some g obtain st where st: "store (snd (snd ?g)) (fst (snd ?g)) w = Some st"
      by (auto simp: SpellChecker_AddToUserDictionary_def Let_def split: option.splits)
    from store_Some(4) [OF st] g have f: "fst st" by simp
    from False assms(3) Some g st f
    have sc': "sc' = sc\<lparr>userDictionary := sort_dictionary (fst (snd st))\<rparr>"
      by (simp add: SpellChecker_AddToUserDictionary_def Let_def)
    from g have "fst ?g" by simp
    note r = grow_room [OF assms(2) this]
    have "dict_count (fst (snd st)) = Suc (dict_count (fst (snd ?g)))"
      using store_Some(1) [OF st] f by (simp add: dict_count_def)
    with r store_Some(2,3) [OF st] show ?thesis
      by (simp add: sc' dict_backed_def sort_dictionary_frame)
  qed
qed

lemma AddToUserDictionary_sorted:
  "dict_sorted (words (userDictionary sc)) \<Longrightarrow>
   SpellChecker_AddToUserDictionary h sc wp = Some sc' \<Longrightarrow>
     dict_sorted (words (userDictionary sc'))"
  using AddToUserDictionary_cases [of h sc wp sc'] by auto

lemma AddToUserDictionary_keeps:
  assumes "BinarySearchDictionary (userDictionary sc) w"
    and "SpellChecker_AddToUserDictionary h sc wp = Some sc'"
  shows "BinarySearchDictionary (userDictionary sc') w"
proof -
  from AddToUserDictionary_cases [OF assms(2)] show ?thesis
  proof
    assume "words (userDictionary sc') = words (userDictionary sc)"
    with assms(1) show ?thesis
      by (simp add: BinarySearchDictionary_words [of "userDictionary sc'" "userDictionary sc"])
  next
    assume "\<exists>v. wp = Some v \<and> dict_sorted (words (userDictionary sc')) \<and>
      mset (words (userDictionary sc')) = add_mset (strcpy v) (mset (words (userDictionary sc)))"
    then obtain v where s: "dict_sorted (words (userDictionary sc'))"
      and m: "mset (words (userDictionary sc')) = add_mset (strcpy v) (mset (words (userDictionary sc)))"
      by blast
    from assms(1) have "contains_nocase (words (userDictionary sc)) w"
      by (rule BinarySearchDictionary_sound)
    then have "contains_nocase (words (userDictionary sc')) w"
      using mset_add_set [OF m] by (auto simp: contains_nocase_def list_ex_iff)
    with s show ?thesis by (simp add: BinarySearchDictionary_iff)
  qed
qed

lemma AddToUserDictionary_learns:
  assumes "set h \<subseteq> {True}" and "SpellChecker_AddToUserDictionary h sc (Some w) = Some sc'"
  shows "BinarySearchDictionary (userDictionary sc') w"
proof (cases "BinarySearchDictionary (userDictionary sc) w")
  case True
  then show ?thesis using assms(2) by (rule AddToUserDictionary_keeps)
next
  case False
  note a = AddToUserDictionary_granted [OF assms(1) False assms(2)]
  have "contains_nocase (words (userDictionary sc')) w"
    using mset_add_set [OF a(2)] by (auto simp: contains_nocase_def list_ex_iff key_strcpy)
  with a(1) show ?thesis by (simp add: BinarySearchDictionary_iff)
qed

text \<open>The same for a sequence of calls.\<close>

lemma add_all_keeps:
  "BinarySearchDictionary (userDictionary sc) w \<Longrightarrow> add_all sc calls = Some sc' \<Longrightarrow>
     BinarySearchDictionary (userDictionary sc') w"
proof (induction calls arbitrary: sc)
  case Nil
  then show ?case by simp
next
  case (Cons c calls)
  from Cons.prems(2) obtain sc1
    where a: "SpellChecker_AddToUserDictionary (fst c) sc (snd c) = Some sc1"
      and r: "add_all sc1 calls = Some sc'"
    by (auto split: option.splits)
  from AddToUserDictionary_keeps [OF Cons.prems(1) a] r show ?case by (rule Cons.IH)
qed

lemma add_all_defined:
  "dict_backed (userDictionary sc) \<Longrightarrow> \<forall>c\<in>set calls. set (fst c) \<subseteq> {True} \<Longrightarrow>
     \<exists>sc'. add_all sc calls = Some sc'"
proof (induction calls arbitrary: sc)
  case Nil
  then show ?case by simp
next
  case (Cons c calls)
  from AddToUserDictionary_defined [OF Cons.prems(1)] obtain sc1
    where a: "SpellChecker_AddToUserDictionary (fst c) sc (snd c) = Some sc1" by blast
  from Cons.prems(2) have g: "set (fst c) \<subseteq> {True}" by simp
  from AddToUserDictionary_backed [OF g Cons.prems(1) a]
  have "\<exists>sc'. add_all sc1 calls = Some sc'"
    using Cons.prems(2) by (intro Cons.IH) simp_all
  with a show ?case by simp
qed

lemma bsearch_loop_key:
  "key w = key w' \<Longrightarrow> bsearch_loop ws w left right = bsearch_loop ws w' left right"
proof (induction ws w left right rule: bsearch_loop.induct)
  case (1 ws w left right)
  let ?mid = "left + (right - left) div 2"
  have e: "strcasecmp_custom (ws ! nat ?mid) w = 0 \<longleftrightarrow> strcasecmp_custom (ws ! nat ?mid) w' = 0"
    and l: "strcasecmp_custom (ws ! nat ?mid) w < 0 \<longleftrightarrow> strcasecmp_custom (ws ! nat ?mid) w' < 0"
    using "1.prems" by (simp_all add: strcasecmp_custom_eq strcasecmp_custom_less)
  show ?case
  proof (cases "left \<le> right")
    case False
    then show ?thesis by (subst bsearch_loop.simps, subst (2) bsearch_loop.simps) simp
  next
    case lr: True
    show ?thesis
    proof (cases "strcasecmp_custom (ws ! nat ?mid) w = 0")
      case True
      with e lr show ?thesis
        by (subst bsearch_loop.simps, subst (2) bsearch_loop.simps) (simp add: Let_def)
    next
      case ne: False
      show ?thesis
      proof (cases "strcasecmp_custom (ws ! nat ?mid) w < 0")
        case True
        from "1.IH"(1) [OF lr refl refl ne True "1.prems"] ne True e l lr show ?thesis
          by (subst bsearch_loop.simps, subst (2) bsearch_loop.simps) (simp add: Let_def)
      next
        case False
        from "1.IH"(2) [OF lr refl refl ne False "1.prems"] ne False e l lr show ?thesis
          by (subst bsearch_loop.simps, subst (2) bsearch_loop.simps) (simp add: Let_def)
      qed
    qed
  qed
qed

lemma BinarySearchDictionary_key:
  "key w = key w' \<Longrightarrow> BinarySearchDictionary d w = BinarySearchDictionary d w'"
  unfolding BinarySearchDictionary_def by (rule bsearch_loop_key)

text \<open>
  C7: after \<open>SpellChecker_AddToUserDictionary\<close> of a word \<open>w\<close> in a call whose
  allocations are granted, the user dictionary holds \<open>w\<close> up to case and the lookup of
  \<open>w\<close> succeeds, and so for every word equal to \<open>w\<close> up to case; this stays so
  after any sequence of further calls, with any words. The calls are defined when the
  user dictionary is backed by its block and the allocations of the further calls are
  granted too, and the word stays found in every defined run, whatever the outcomes of
  the further calls. Every call leaves a sorted user dictionary sorted, so no lookup
  sees it unsorted.
\<close>

theorem AddToUserDictionary_learned:
  "(dict_backed (userDictionary sc) \<and> (\<forall>c\<in>set later. set (fst c) \<subseteq> {True}) \<longrightarrow>
      add_all sc ((replicate n True, Some w) # later) \<noteq> None) \<and>
   (add_all sc ((replicate n True, Some w) # later) \<noteq> None \<longrightarrow>
      contains_nocase
        (words (userDictionary (the (add_all sc ((replicate n True, Some w) # later))))) w \<and>
      BinarySearchDictionary
        (userDictionary (the (add_all sc ((replicate n True, Some w) # later)))) w \<and>
      (key w' = key w \<longrightarrow>
         contains_nocase
           (words (userDictionary (the (add_all sc ((replicate n True, Some w) # later))))) w' \<and>
         BinarySearchDictionary
           (userDictionary (the (add_all sc ((replicate n True, Some w) # later)))) w')) \<and>
   (SpellChecker_AddToUserDictionary h sc wp \<noteq> None \<and> dict_sorted (words (userDictionary sc)) \<longrightarrow>
      dict_sorted (words (userDictionary (the (SpellChecker_AddToUserDictionary h sc wp)))))"
proof -
  let ?run = "add_all sc ((replicate n True, Some w) # later)"
  have granted: "set (replicate n True) \<subseteq> {True}" by auto
  have a: "dict_backed (userDictionary sc) \<and> (\<forall>c\<in>set later. set (fst c) \<subseteq> {True}) \<longrightarrow>
      ?run \<noteq> None"
  proof
    assume h: "dict_backed (userDictionary sc) \<and> (\<forall>c\<in>set later. set (fst c) \<subseteq> {True})"
    then have "\<forall>c\<in>set ((replicate n True, Some w) # later). set (fst c) \<subseteq> {True}"
      using granted by simp
    from add_all_defined [OF conjunct1 [OF h] this] show "?run \<noteq> None" by blast
  qed
  have b: "?run \<noteq> None \<longrightarrow>
      contains_nocase (words (userDictionary (the ?run))) w \<and>
      BinarySearchDictionary (userDictionary (the ?run)) w \<and>
      (key w' = key w \<longrightarrow>
         contains_nocase (words (userDictionary (the ?run))) w' \<and>
         BinarySearchDictionary (userDictionary (the ?run)) w')"
  proof
    assume "?run \<noteq> None"
    then obtain sc2 where run: "?run = Some sc2" by blast
    then obtain sc1
      where a1: "SpellChecker_AddToUserDictionary (replicate n True) sc (Some w) = Some sc1"
        and a2: "add_all sc1 later = Some sc2"
      by (auto split: option.splits)
    from AddToUserDictionary_learns [OF granted a1]
    have f: "BinarySearchDictionary (userDictionary sc2) w"
      using a2 by (rule add_all_keeps)
    then have c: "contains_nocase (words (userDictionary sc2)) w"
      by (rule BinarySearchDictionary_sound)
    have k: "key w' = key w \<longrightarrow>
         contains_nocase (words (userDictionary sc2)) w' \<and>
         BinarySearchDictionary (userDictionary sc2) w'"
    proof
      assume e: "key w' = key w"
      then have "BinarySearchDictionary (userDictionary sc2) w' =
          BinarySearchDictionary (userDictionary sc2) w"
        by (rule BinarySearchDictionary_key)
      with f have f': "BinarySearchDictionary (userDictionary sc2) w'" by (rule iffD2 [rotated])
      from c e have "contains_nocase (words (userDictionary sc2)) w'"
        by (simp add: contains_nocase_def)
      with f' show "contains_nocase (words (userDictionary sc2)) w' \<and>
         BinarySearchDictionary (userDictionary sc2) w'" by (rule conjI [rotated])
    qed
    have t: "the ?run = sc2" unfolding run by simp
    show "contains_nocase (words (userDictionary (the ?run))) w \<and>
      BinarySearchDictionary (userDictionary (the ?run)) w \<and>
      (key w' = key w \<longrightarrow>
         contains_nocase (words (userDictionary (the ?run))) w' \<and>
         BinarySearchDictionary (userDictionary (the ?run)) w')"
      unfolding t by (rule conjI [OF c conjI [OF f k]])
  qed
  have c: "SpellChecker_AddToUserDictionary h sc wp \<noteq> None \<and> dict_sorted (words (userDictionary sc)) \<longrightarrow>
      dict_sorted (words (userDictionary (the (SpellChecker_AddToUserDictionary h sc wp))))"
  proof
    assume h: "SpellChecker_AddToUserDictionary h sc wp \<noteq> None \<and> dict_sorted (words (userDictionary sc))"
    then obtain sc1 where a1: "SpellChecker_AddToUserDictionary h sc wp = Some sc1" by blast
    from AddToUserDictionary_sorted [OF conjunct2 [OF h] a1]
    show "dict_sorted (words (userDictionary (the (SpellChecker_AddToUserDictionary h sc wp))))"
      unfolding a1 by simp
  qed
  show ?thesis
    by (rule conjI [OF a conjI [OF b c]])
qed

lemma engine_dict_backed: "length u \<le> 1000 \<Longrightarrow> dict_backed (userDictionary (engine m u i))"
  by (simp add: engine_def dict_backed_def dict_count_def)

theorem AddToUserDictionary_learned_witness:
  "add_all (engine [] [''apple''] [])
     [(replicate 0 True, Some ''Zed''), ([], Some ''apple''), ([True], Some ''Box'')] \<noteq> None \<and>
   contains_nocase
     (words (userDictionary (the (add_all (engine [] [''apple''] [])
        [(replicate 0 True, Some ''Zed''), ([], Some ''apple''), ([True], Some ''Box'')])))) ''ZED'' \<and>
   BinarySearchDictionary
     (userDictionary (the (add_all (engine [] [''apple''] [])
        [(replicate 0 True, Some ''Zed''), ([], Some ''apple''), ([True], Some ''Box'')]))) ''ZED'' \<and>
   dict_sorted (words (userDictionary
     (the (SpellChecker_AddToUserDictionary [] (engine [] [''apple''] []) (Some ''Zed'')))))"
proof -
  let ?sc = "engine [] [''apple''] []"
  have k: "key ''ZED'' = key ''Zed''"
    by (simp add: key_def c_str_def byte_def tolower_def)
  have s: "dict_sorted (words (userDictionary ?sc))"
    by (simp add: engine_def dict_sorted_def)
  have b: "dict_backed (userDictionary ?sc) \<and>
      (\<forall>c\<in>set [([], Some ''apple''), ([True], Some ''Box'')]. set (fst c) \<subseteq> {True})"
    by (simp add: engine_dict_backed)
  have d: "SpellChecker_AddToUserDictionary [] ?sc (Some ''Zed'') \<noteq> None"
    using AddToUserDictionary_defined [OF engine_dict_backed, of "[''apple'']" "[]" "[]" "[]" "Some ''Zed''"]
    by auto
  note t = AddToUserDictionary_learned [where later = "[([], Some ''apple''), ([True], Some ''Box'')]"
      and n = 0 and sc = ?sc and w = "''Zed''" and w' = "''ZED''" and h = "[]"
      and wp = "Some ''Zed''"]
  note t1 = t [THEN conjunct1, THEN mp, OF b]
  note t2 = t [THEN conjunct2, THEN conjunct1, THEN mp, OF t1, THEN conjunct2, THEN conjunct2,
      THEN mp, OF k]
  note t3 = t [THEN conjunct2, THEN conjunct2, THEN mp, OF conjI [OF d s]]
  show ?thesis
    by (rule conjI [OF t1 conjI [OF conjunct1 [OF t2] conjI [OF conjunct2 [OF t2] t3]]])
qed

section \<open>What the loaders return\<close>

text \<open>
  One pass of the loop body that appends a line: on an array backed by its block it is
  defined, and the array stays backed when the line is stored.
\<close>

lemma append_backed:
  assumes "dict_backed dict" and "fst (grow h dict)"
  shows "\<exists>st. store (snd (snd (grow h dict))) (fst (snd (grow h dict))) w = Some st \<and>
           (fst st \<longrightarrow> dict_backed (fst (snd st)))"
proof -
  let ?g = "grow h dict"
  note r = grow_room [OF assms]
  from r have "dict_count (fst (snd ?g)) < block (fst (snd ?g))" by simp
  from store_room [OF this] obtain st where st: "store (snd (snd ?g)) (fst (snd ?g)) w = Some st"
    by blast
  have "fst st \<longrightarrow> dict_backed (fst (snd st))"
    using r store_Some(1,2,3) [OF st] by (simp add: dict_backed_def dict_count_def)
  with st show ?thesis by blast
qed

lemma load_main_loop_granted:
  "set h \<subseteq> {True} \<Longrightarrow> load_main_loop h dict bufs = Some r \<Longrightarrow>
     fst r \<and> words (snd r) = words dict @ main_entries bufs"
proof (induction bufs arbitrary: h dict)
  case Nil
  then show ?case by (auto simp: main_entries_def)
next
  case (Cons buf bufs)
  let ?g = "grow h dict"
  note g = grow_granted [OF Cons.prems(1), of dict]
  show ?case
  proof (cases "length (trimmed buf) = 0 \<or> byte (trimmed buf ! 0) = 35")
    case True
    then have "load_main_loop h dict (buf # bufs) = load_main_loop h dict bufs"
      by (simp add: trimmed_def Let_def)
    with Cons.IH [OF Cons.prems(1), of dict] Cons.prems(2) True show ?thesis
      by (simp add: main_entries_def)
  next
    case False
    with Cons.prems(2) g obtain st
      where st: "store (snd (snd ?g)) (fst (snd ?g)) (trimmed buf) = Some st"
      by (auto simp: trimmed_def Let_def split: option.splits)
    from store_Some(4) [OF st] g have f: "fst st" "set (snd (snd st)) \<subseteq> {True}" by simp_all
    from False Cons.prems(2) g st f
    have "load_main_loop (snd (snd st)) (fst (snd st)) bufs = Some r"
      by (simp add: trimmed_def Let_def)
    from Cons.IH [OF f(2) this] store_Some(1) [OF st] f(1) False show ?thesis
      by (simp add: main_entries_def grow_words)
  qed
qed


lemma load_main_loop_defined:
  "dict_backed dict \<Longrightarrow>
     \<exists>r. load_main_loop h dict bufs = Some r \<and> (fst r \<longrightarrow> dict_backed (snd r))"
proof (induction bufs arbitrary: h dict)
  case Nil
  then show ?case by simp
next
  case (Cons buf bufs)
  let ?g = "grow h dict"
  show ?case
  proof (cases "length (trimmed buf) = 0 \<or> byte (trimmed buf ! 0) = 35")
    case True
    then have "load_main_loop h dict (buf # bufs) = load_main_loop h dict bufs"
      by (simp add: trimmed_def Let_def)
    with Cons.IH [OF Cons.prems, of h] show ?thesis by simp
  next
    case False
    note line = this
    show ?thesis
    proof (cases "fst ?g")
      case False
      with line show ?thesis by (simp add: trimmed_def Let_def)
    next
      case True
      from append_backed [OF Cons.prems True, of "trimmed buf"] obtain st
        where st: "store (snd (snd ?g)) (fst (snd ?g)) (trimmed buf) = Some st"
          and b: "fst st \<longrightarrow> dict_backed (fst (snd st))"
        by blast
      show ?thesis
      proof (cases "fst st")
        case False
        with line True st show ?thesis by (simp add: trimmed_def Let_def)
      next
        case f: True
        with line True st
        have "load_main_loop h dict (buf # bufs) =
            load_main_loop (snd (snd st)) (fst (snd st)) bufs"
          by (simp add: trimmed_def Let_def)
        with Cons.IH [of "fst (snd st)" "snd (snd st)"] b f show ?thesis by simp
      qed
    qed
  qed
qed



lemma sort_dictionary_Nil: "words (sort_dictionary dict) = [] \<longleftrightarrow> words dict = []"
  using sort_dictionary_mset [of dict] by (metis mset_zero_iff)

text \<open>The two loaders on a file that opens, in a run whose allocations are granted.\<close>

lemma LoadDictionary_granted:
  assumes "set h \<subseteq> {True}" and "fs path = Some file"
    and "SpellChecker_LoadDictionary fs h sc (Some path) = Some r"
  shows "fst r = (words (mainDictionary sc) @ main_entries (fgets_all file) \<noteq> [])"
    and "mset (words (mainDictionary (snd r))) =
           mset (words (mainDictionary sc) @ main_entries (fgets_all file))"
    and "dict_sorted (words (mainDictionary (snd r)))"
    and "snd r = sc\<lparr>mainDictionary := mainDictionary (snd r)\<rparr>"
proof -
  from assms(2,3) obtain l where l: "load_main_loop h (mainDictionary sc) (fgets_all file) = Some l"
    by (auto simp: SpellChecker_LoadDictionary_def split: option.splits)
  note g = load_main_loop_granted [OF assms(1) l]
  from assms(2,3) l g
  have r: "r = (dict_count (sort_dictionary (snd l)) > 0, sc\<lparr>mainDictionary := sort_dictionary (snd l)\<rparr>)"
    by (simp add: SpellChecker_LoadDictionary_def Let_def)
  show "fst r = (words (mainDictionary sc) @ main_entries (fgets_all file) \<noteq> [])"
    using g by (simp add: r dict_count_def sort_dictionary_Nil)
  show "mset (words (mainDictionary (snd r))) =
           mset (words (mainDictionary sc) @ main_entries (fgets_all file))"
    using g by (simp add: r sort_dictionary_mset)
  show "dict_sorted (words (mainDictionary (snd r)))"
    by (simp add: r sort_dictionary_sorted)
  show "snd r = sc\<lparr>mainDictionary := mainDictionary (snd r)\<rparr>"
    by (simp add: r)
qed


lemma LoadDictionary_defined:
  assumes "dict_backed (mainDictionary sc)"
  shows "\<exists>r. SpellChecker_LoadDictionary fs h sc filePath = Some r"
proof (cases filePath)
  case None
  then show ?thesis by (auto simp: SpellChecker_LoadDictionary_def)
next
  case (Some path)
  show ?thesis
  proof (cases "fs path")
    case None
    with Some show ?thesis by (auto simp: SpellChecker_LoadDictionary_def)
  next
    case f: (Some bytes)
    from load_main_loop_defined [OF assms, of h "fgets_all bytes"] obtain l
      where "load_main_loop h (mainDictionary sc) (fgets_all bytes) = Some l" by blast
    with Some f show ?thesis by (auto simp: SpellChecker_LoadDictionary_def Let_def)
  qed
qed


text \<open>
  C3 (as amended): \<open>SpellChecker_LoadDictionary\<close> returns failure, and leaves the
  engine as it was, when the file cannot be opened. When the file can be opened and all
  allocations succeed, it returns success exactly when the main dictionary holds at
  least one word after the load, that is when the dictionary was not empty before or the
  file gave at least one entry; the call is defined when the main dictionary is backed
  by its block. \<open>SpellChecker_LoadUserDictionary\<close> on a path that cannot be opened
  returns success and leaves the engine as it was.
\<close>

theorem LoadDictionary_result:
  "(fs path = None \<longrightarrow> SpellChecker_LoadDictionary fs h sc (Some path) = Some (False, sc)) \<and>
   (fs path = Some file \<longrightarrow>
      (dict_backed (mainDictionary sc) \<longrightarrow>
         SpellChecker_LoadDictionary fs (replicate n True) sc (Some path) \<noteq> None) \<and>
      (SpellChecker_LoadDictionary fs (replicate n True) sc (Some path) \<noteq> None \<longrightarrow>
         fst (the (SpellChecker_LoadDictionary fs (replicate n True) sc (Some path))) =
           (words (mainDictionary
              (snd (the (SpellChecker_LoadDictionary fs (replicate n True) sc (Some path))))) \<noteq> []) \<and>
         fst (the (SpellChecker_LoadDictionary fs (replicate n True) sc (Some path))) =
           (words (mainDictionary sc) \<noteq> [] \<or> main_entries (fgets_all file) \<noteq> []))) \<and>
   (fs path = None \<longrightarrow> SpellChecker_LoadUserDictionary fs h sc (Some path) = Some (True, sc))"
proof -
  let ?l = "SpellChecker_LoadDictionary fs (replicate n True) sc (Some path)"
  have granted: "set (replicate n True) \<subseteq> {True}" by auto
  have a: "fs path = None \<longrightarrow> SpellChecker_LoadDictionary fs h sc (Some path) = Some (False, sc)"
    by (simp add: SpellChecker_LoadDictionary_def)
  have c: "fs path = None \<longrightarrow> SpellChecker_LoadUserDictionary fs h sc (Some path) = Some (True, sc)"
    by (simp add: SpellChecker_LoadUserDictionary_def)
  have b: "fs path = Some file \<longrightarrow>
      (dict_backed (mainDictionary sc) \<longrightarrow> ?l \<noteq> None) \<and>
      (?l \<noteq> None \<longrightarrow>
         fst (the ?l) = (words (mainDictionary (snd (the ?l))) \<noteq> []) \<and>
         fst (the ?l) = (words (mainDictionary sc) \<noteq> [] \<or> main_entries (fgets_all file) \<noteq> []))"
  proof
    assume f: "fs path = Some file"
    have d: "dict_backed (mainDictionary sc) \<longrightarrow> ?l \<noteq> None"
      using LoadDictionary_defined [of sc fs "replicate n True" "Some path"] by auto
    have e: "?l \<noteq> None \<longrightarrow>
         fst (the ?l) = (words (mainDictionary (snd (the ?l))) \<noteq> []) \<and>
         fst (the ?l) = (words (mainDictionary sc) \<noteq> [] \<or> main_entries (fgets_all file) \<noteq> [])"
    proof
      assume "?l \<noteq> None"
      then obtain r where r: "?l = Some r" by blast
      note l = LoadDictionary_granted [OF granted f r]
      have "(words (mainDictionary (snd r)) = []) =
          (words (mainDictionary sc) @ main_entries (fgets_all file) = [])"
        using l(2) by (metis mset_zero_iff)
      with l(1) show "fst (the ?l) = (words (mainDictionary (snd (the ?l))) \<noteq> []) \<and>
         fst (the ?l) = (words (mainDictionary sc) \<noteq> [] \<or> main_entries (fgets_all file) \<noteq> [])"
        unfolding r by simp
    qed
    from d e show "(dict_backed (mainDictionary sc) \<longrightarrow> ?l \<noteq> None) \<and>
      (?l \<noteq> None \<longrightarrow>
         fst (the ?l) = (words (mainDictionary (snd (the ?l))) \<noteq> []) \<and>
         fst (the ?l) = (words (mainDictionary sc) \<noteq> [] \<or> main_entries (fgets_all file) \<noteq> []))"
      by (rule conjI)
  qed
  show ?thesis by (rule conjI [OF a conjI [OF b c]])
qed

lemma engine_main_backed: "length m \<le> 10000 \<Longrightarrow> dict_backed (mainDictionary (engine m u i))"
  by (simp add: engine_def dict_backed_def dict_count_def)

theorem LoadDictionary_result_witness:
  "SpellChecker_LoadDictionary one_file [False] (engine [] [] []) (Some ''missing.txt'') =
     Some (False, engine [] [] []) \<and>
   SpellChecker_LoadDictionary one_file (replicate 0 True) (engine [] [] []) (Some ''dict.txt'') \<noteq> None \<and>
   fst (the (SpellChecker_LoadDictionary one_file (replicate 0 True) (engine [] [] [])
     (Some ''dict.txt''))) \<and>
   SpellChecker_LoadUserDictionary one_file [False] (engine [] [] []) (Some ''missing.txt'') =
     Some (True, engine [] [] [])"
proof -
  have m: "one_file ''missing.txt'' = None" by (simp add: one_file_def)
  have d: "one_file ''dict.txt'' = Some (''hello'' @ [CHR 0x0A])" by (simp add: one_file_def)
  have e: "words (mainDictionary (engine [] [] [])) \<noteq> [] \<or>
      main_entries (fgets_all (''hello'' @ [CHR 0x0A])) \<noteq> []"
    by code_simp
  have k: "dict_backed (mainDictionary (engine [] [] []))"
    by (simp add: engine_main_backed)
  note t1 = LoadDictionary_result [of one_file "''missing.txt''" "[False]" "engine [] [] []"]
  note t2 = LoadDictionary_result [of one_file "''dict.txt''" _ "engine [] [] []"
      "''hello'' @ [CHR 0x0A]" 0]
  have a: "SpellChecker_LoadDictionary one_file [False] (engine [] [] []) (Some ''missing.txt'') =
     Some (False, engine [] [] [])"
    using t1 m by blast
  have c: "SpellChecker_LoadUserDictionary one_file [False] (engine [] [] []) (Some ''missing.txt'') =
     Some (True, engine [] [] [])"
    using t1 m by blast
  note t3 = t2 [THEN conjunct2, THEN conjunct1, THEN mp, OF d]
  note b1 = t3 [THEN conjunct1, THEN mp, OF k]
  note b2 = t3 [THEN conjunct2, THEN mp, OF b1, THEN conjunct2]
  have b: "fst (the (SpellChecker_LoadDictionary one_file (replicate 0 True) (engine [] [] [])
     (Some ''dict.txt'')))"
    using b2 e by blast
  show ?thesis by (rule conjI [OF a conjI [OF b1 conjI [OF b c]]])
qed

theorem LoadDictionary_result_counterexample:
  "SpellChecker_LoadDictionary (\<lambda>p. Some []) [] (engine [] [] []) (Some ''dict.txt'') =
     Some (False, engine [] [] [])"
  by code_simp

section \<open>Comment lines in the two loaders\<close>


lemma byte_hash: "byte c = 35 \<longleftrightarrow> c = CHR ''#''"
proof -
  have "byte (CHR ''#'') = 35" by (simp add: byte_def)
  then have "byte c = 35 \<longleftrightarrow> (of_char c :: int) = of_char (CHR ''#'')"
    by (simp add: byte_def)
  then show ?thesis by (simp only: of_char_eq_iff)
qed












lemma strlen_le: "strlen line \<le> length line"
  by (simp add: strlen_def c_str_def length_takeWhile_le)





lemma main_entries_append: "main_entries (a @ b) = main_entries a @ main_entries b"
  by (simp add: main_entries_def)














section \<open>The distance that LevenshteinDistance computes\<close>

lemma lev_Nil2: "lev xs [] = length xs"
  by (cases xs) auto

lemma lev_zero: "lev xs ys = 0 \<longleftrightarrow> xs = ys"
proof (induction xs ys rule: lev.induct)
  case (1 ys)
  then show ?case by auto
next
  case (2 x xs)
  then show ?case by auto
next
  case (3 x xs y ys)
  then show ?case by (auto simp: min_def split: if_splits)
qed

lemma edit_distance_zero: "edit_distance a b = 0 \<longleftrightarrow> a = b"
  by (simp add: edit_distance_def lev_zero)

lemma D_0_j: "j \<le> length s2 \<Longrightarrow> D s1 s2 0 j = int j"
  by (simp add: D_def)

lemma D_i_0: "i \<le> length s1 \<Longrightarrow> D s1 s2 i 0 = int i"
  by (simp add: D_def lev_Nil2)

lemma D_step:
  assumes "i < length s1" and "j < length s2"
  shows "D s1 s2 (Suc i) (Suc j) =
     min (min (D s1 s2 i (Suc j) + 1) (D s1 s2 (Suc i) j + 1))
       (D s1 s2 i j + (if s1 ! i = s2 ! j then 0 else 1))"
  using assms by (auto simp: D_def take_Suc_conv_app_nth min_def)

lemma lev_inner_correct:
  assumes "length d = Suc len2" and "len2 \<le> length s2" and "0 < i" and "i \<le> length s1"
    and "0 < j"
    and "\<forall>k<j. d ! k = D s1 s2 i k"
    and "\<forall>k. j \<le> k \<and> k \<le> len2 \<longrightarrow> d ! k = D s1 s2 (i - 1) k"
    and "prev_diag = D s1 s2 (i - 1) (j - 1)"
  shows "length (lev_inner s1 s2 len2 i j prev_diag d) = Suc len2 \<and>
     (\<forall>k\<le>len2. lev_inner s1 s2 len2 i j prev_diag d ! k = D s1 s2 i k)"
  using assms
proof (induction s1 s2 len2 i j prev_diag d rule: lev_inner.induct)
  case (1 s1 s2 len2 i j prev_diag d)
  show ?case
  proof (cases "j \<le> len2")
    case False
    then have "lev_inner s1 s2 len2 i j prev_diag d = d"
      by (subst lev_inner.simps) simp
    with False "1.prems" show ?thesis by auto
  next
    case True
    define cost :: int where "cost = (if s1 ! (i - 1) = s2 ! (j - 1) then 0 else 1)"
    define d1 where "d1 = d[j := (if d ! j + 1 < d ! (j - 1) + 1 then d ! j + 1 else d ! (j - 1) + 1)]"
    define d2 where "d2 = d1[j := (if d1 ! j < prev_diag + cost then d1 ! j else prev_diag + cost)]"
    have unfold: "lev_inner s1 s2 len2 i j prev_diag d = lev_inner s1 s2 len2 i (j + 1) (d ! j) d2"
      using True by (subst lev_inner.simps) (simp add: Let_def cost_def d1_def d2_def)
    obtain i' j' where ij: "i = Suc i'" "j = Suc j'"
      using "1.prems"(3,5) by (cases i; cases j) auto
    have jl: "j < length d" using True "1.prems"(1) by simp
    have dj: "d ! j = D s1 s2 i' j" using "1.prems"(7) True ij by simp
    have dj1: "d ! (j - Suc 0) = D s1 s2 i j'" using "1.prems"(6) ij by simp
    have pd: "prev_diag = D s1 s2 i' j'" using "1.prems"(8) ij by simp
    have st: "D s1 s2 i j =
        min (min (D s1 s2 i' j + 1) (D s1 s2 i j' + 1)) (D s1 s2 i' j' + cost)"
      using D_step [of i' s1 j' s2] ij "1.prems"(2,4) True by (simp add: cost_def)
    have d2j: "d2 ! j = D s1 s2 i j"
      using jl by (simp add: d2_def d1_def dj dj1 pd st min_def)
    have d2k: "d2 ! k = d ! k" if "k \<noteq> j" for k
      using that by (simp add: d2_def d1_def)
    have len: "length d2 = Suc len2" using "1.prems"(1) by (simp add: d2_def d1_def)
    have a: "\<forall>k<j + 1. d2 ! k = D s1 s2 i k"
    proof (intro allI impI)
      fix k assume "k < j + 1"
      then show "d2 ! k = D s1 s2 i k"
        using d2j d2k [of k] "1.prems"(6) by (cases "k = j") auto
    qed
    have b: "\<forall>k. j + 1 \<le> k \<and> k \<le> len2 \<longrightarrow> d2 ! k = D s1 s2 (i - 1) k"
      using d2k "1.prems"(7) by auto
    have c: "d ! j = D s1 s2 (i - 1) (j + 1 - 1)" using dj ij by simp
    show ?thesis
      unfolding unfold
      by (rule "1.IH" [OF True cost_def refl d1_def d2_def len "1.prems"(2,3,4) _ a b c]) simp
  qed
qed

lemma lev_outer_correct:
  assumes "length d = Suc len2" and "len2 \<le> length s2" and "0 < i" and "i \<le> Suc len1"
    and "len1 \<le> length s1"
    and "\<forall>k\<le>len2. d ! k = D s1 s2 (i - 1) k"
  shows "\<forall>k\<le>len2. lev_outer s1 s2 len1 len2 i d ! k = D s1 s2 len1 k"
  using assms
proof (induction s1 s2 len1 len2 i d rule: lev_outer.induct)
  case (1 s1 s2 len1 len2 i d)
  show ?case
  proof (cases "i \<le> len1")
    case False
    with "1.prems"(4) have "i - 1 = len1" by simp
    moreover from False have "lev_outer s1 s2 len1 len2 i d = d"
      by (subst lev_outer.simps) simp
    ultimately show ?thesis using "1.prems"(6) by simp
  next
    case True
    let ?d' = "d[0 := int i]"
    let ?row = "lev_inner s1 s2 len2 i 1 (int i - 1) ?d'"
    have il: "i \<le> length s1" using True "1.prems"(5) by simp
    have a: "\<forall>k<1. ?d' ! k = D s1 s2 i k"
      using "1.prems"(1) il by (simp add: D_i_0)
    have b: "\<forall>k. 1 \<le> k \<and> k \<le> len2 \<longrightarrow> ?d' ! k = D s1 s2 (i - 1) k"
      using "1.prems"(6) by simp
    have c: "int i - 1 = D s1 s2 (i - 1) (1 - 1)"
      using il "1.prems"(3) by (simp add: D_i_0)
    have len: "length ?d' = Suc len2" using "1.prems"(1) by simp
    note row = lev_inner_correct [OF len "1.prems"(2,3) il _ a b c]
    have row1: "length ?row = Suc len2" and row2: "\<forall>k\<le>len2. ?row ! k = D s1 s2 (i + 1 - 1) k"
      using row by simp_all
    have "lev_outer s1 s2 len1 len2 i d = lev_outer s1 s2 len1 len2 (i + 1) ?row"
      using True by (subst lev_outer.simps) simp
    moreover have "\<forall>k\<le>len2. lev_outer s1 s2 len1 len2 (i + 1) ?row ! k = D s1 s2 len1 k"
      using True by (intro "1.IH" [OF True row1 "1.prems"(2) _ _ "1.prems"(5) row2]) simp_all
    ultimately show ?thesis by simp
  qed
qed

lemma take_strlen: "take (strlen s) s = c_str s"
  unfolding strlen_def c_str_def by (rule takeWhile_eq_take [symmetric])

lemma lev_table_correct:
  assumes "len1 = strlen s1" and "len2 = strlen s2"
  shows "lev_outer s1 s2 len1 len2 1 (map int [0..<Suc len2]) ! len2 =
     int (edit_distance (c_str s1) (c_str s2))"
proof -
  have l1: "len1 \<le> length s1" and l2: "len2 \<le> length s2"
    using assms by (simp_all add: strlen_le)
  have init: "\<forall>k\<le>len2. map int [0..<Suc len2] ! k = D s1 s2 (1 - 1) k"
  proof (intro allI impI)
    fix k assume k: "k \<le> len2"
    then have "map int [0..<Suc len2] ! k = int ([0..<Suc len2] ! k)"
      by (intro nth_map) simp
    also have "\<dots> = int k" using k by (simp del: upt_Suc)
    finally show "map int [0..<Suc len2] ! k = D s1 s2 (1 - 1) k"
      using k l2 by (simp add: D_0_j del: upt_Suc)
  qed
  have "\<forall>k\<le>len2. lev_outer s1 s2 len1 len2 1 (map int [0..<Suc len2]) ! k = D s1 s2 len1 k"
    by (rule lev_outer_correct [OF _ l2 _ _ l1 init]) simp_all
  then have "lev_outer s1 s2 len1 len2 1 (map int [0..<Suc len2]) ! len2 = D s1 s2 len1 len2"
    by simp
  then show ?thesis
    by (simp add: D_def edit_distance_def assms take_strlen)
qed

lemma LevenshteinDistance_correct:
  "LevenshteinDistance h s1 s2 =
     (if strlen s1 = 0 \<or> strlen s2 = 0 then (int (edit_distance (c_str s1) (c_str s2)), h)
      else if \<not> fst (alloc h) then (- 1, snd (alloc h))
      else (int (edit_distance (c_str s1) (c_str s2)), snd (alloc h)))"
proof -
  have e1: "strlen s1 = 0 \<Longrightarrow> int (strlen s2) = int (edit_distance (c_str s1) (c_str s2))"
    by (simp add: edit_distance_def strlen_def)
  have e2: "strlen s2 = 0 \<Longrightarrow> int (strlen s1) = int (edit_distance (c_str s1) (c_str s2))"
    by (simp add: edit_distance_def strlen_def lev_Nil2)
  show ?thesis
    using e1 e2 lev_table_correct [OF refl refl, of s1 s2]
    by (simp add: LevenshteinDistance_def Let_def)
qed

section \<open>Collecting, sorting and copying the suggestions\<close>

lemma LevenshteinDistance_granted:
  assumes "set h \<subseteq> {True}"
  shows "fst (LevenshteinDistance h s1 s2) = int (edit_distance (c_str s1) (c_str s2))"
    and "set (snd (LevenshteinDistance h s1 s2)) \<subseteq> {True}"
  using alloc_granted [OF assms] assms by (simp_all add: LevenshteinDistance_correct)

lemma collect_suggestions_granted:
  "set h \<subseteq> {True} \<Longrightarrow> length suggestions \<le> 10 \<Longrightarrow>
     fst (collect_suggestions h w ws suggestions) =
       suggestions @ take (10 - length suggestions) (candidates w ws) \<and>
     set (snd (collect_suggestions h w ws suggestions)) \<subseteq> {True}"
proof (induction ws arbitrary: h suggestions)
  case Nil
  then show ?case by (simp add: candidates_def)
next
  case (Cons e rest)
  note l = LevenshteinDistance_granted [OF Cons.prems(1), of w e]
  show ?case
  proof (cases "length suggestions < 10")
    case False
    with Cons.prems show ?thesis by simp
  next
    case True
    let ?d = "edit_distance (c_str w) (c_str e)"
    show ?thesis
    proof (cases "0 < ?d \<and> ?d \<le> 2")
      case q: True
      have "fst (collect_suggestions (snd (LevenshteinDistance h w e)) w rest (suggestions @ [(e, int ?d)])) =
          (suggestions @ [(e, int ?d)]) @
            take (10 - length (suggestions @ [(e, int ?d)])) (candidates w rest) \<and>
          set (snd (collect_suggestions (snd (LevenshteinDistance h w e)) w rest
            (suggestions @ [(e, int ?d)]))) \<subseteq> {True}"
        using True by (intro Cons.IH [OF l(2)]) simp
      moreover have "take (10 - length suggestions) (candidates w (e # rest)) =
          (e, int ?d) # take (10 - length (suggestions @ [(e, int ?d)])) (candidates w rest)"
        using True q by (simp add: candidates_def take_Cons')
      ultimately show ?thesis using True q l(1) by (simp add: Let_def)
    next
      case q: False
      have "candidates w (e # rest) = candidates w rest"
        using q by (simp add: candidates_def)
      with Cons.IH [OF l(2) Cons.prems(2)] True q l(1) show ?thesis
        by (auto simp: Let_def)
    qed
  qed
qed

lemma collect_suggestions_any:
  "length suggestions \<le> 10 \<Longrightarrow>
     length (fst (collect_suggestions h w ws suggestions)) \<le> 10 \<and>
     set (fst (collect_suggestions h w ws suggestions)) \<subseteq> set suggestions \<union> set (candidates w ws)"
proof (induction ws arbitrary: h suggestions)
  case Nil
  then show ?case by simp
next
  case (Cons e rest)
  let ?r = "LevenshteinDistance h w e"
  let ?d = "edit_distance (c_str w) (c_str e)"
  have d: "fst ?r = - 1 \<or> fst ?r = int ?d"
    by (simp add: LevenshteinDistance_correct)
  show ?case
  proof (cases "length suggestions < 10")
    case False
    with Cons.prems show ?thesis by simp
  next
    case True
    show ?thesis
    proof (cases "fst ?r > 0 \<and> fst ?r \<le> 2")
      case q: True
      with d have e: "fst ?r = int ?d" "0 < ?d" "?d \<le> 2" by auto
      then have c: "(e, fst ?r) \<in> set (candidates w (e # rest))"
        by (simp add: candidates_def)
      have s: "set (candidates w rest) \<subseteq> set (candidates w (e # rest))"
        by (auto simp: candidates_def)
      have "length (suggestions @ [(e, fst ?r)]) \<le> 10" using True by simp
      from Cons.IH [OF this, of "snd ?r"] True q c s show ?thesis
        by (auto simp: Let_def)
    next
      case q: False
      have s: "set (candidates w rest) \<subseteq> set (candidates w (e # rest))"
        by (auto simp: candidates_def)
      from Cons.IH [OF Cons.prems, of "snd ?r"] True q s show ?thesis
        by (auto simp: Let_def)
    qed
  qed
qed

lemma copy_suggestions_Some:
  "copy_suggestions h l = Some result \<Longrightarrow> result = map (\<lambda>s. strcpy (fst s)) l"
  by (induction l arbitrary: h result) (auto simp: Let_def split: if_splits option.splits)

lemma copy_suggestions_granted:
  "set h \<subseteq> {True} \<Longrightarrow> copy_suggestions h l = Some (map (\<lambda>s. strcpy (fst s)) l)"
proof (induction l arbitrary: h)
  case Nil
  then show ?case by simp
next
  case (Cons s l)
  from alloc_granted [OF Cons.prems] Cons.IH [of "snd (alloc h)"] show ?case
    by (simp add: Let_def)
qed

lemma sort_inner_length: "length (sort_inner n s i j) = length s"
proof (induction n s i j rule: sort_inner.induct)
  case (1 n s i j)
  show ?case
  proof (cases "j < n")
    case True
    have "sort_inner n s i j =
        sort_inner n (if snd (s ! j) < snd (s ! i) then s[i := s ! j, j := s ! i] else s) i (j + 1)"
      using True by (subst sort_inner.simps) simp
    with "1.IH" [OF True] show ?thesis by simp
  next
    case False
    then show ?thesis by (subst sort_inner.simps) simp
  qed
qed

lemma sort_inner_invariant:
  assumes "n = length s" and "i < j"
    and "\<forall>k. i < k \<and> k < j \<longrightarrow> snd (s ! i) \<le> snd (s ! k)"
  shows "mset (sort_inner n s i j) = mset s \<and>
         take i (sort_inner n s i j) = take i s \<and>
         (\<forall>k. i < k \<and> k < n \<longrightarrow> snd (sort_inner n s i j ! i) \<le> snd (sort_inner n s i j ! k))"
  using assms
proof (induction n s i j rule: sort_inner.induct)
  case (1 n s i j)
  show ?case
  proof (cases "j < n")
    case False
    then have "sort_inner n s i j = s" by (subst sort_inner.simps) simp
    with False "1.prems" show ?thesis by auto
  next
    case True
    let ?s' = "if snd (s ! j) < snd (s ! i) then s[i := s ! j, j := s ! i] else s"
    have unfold: "sort_inner n s i j = sort_inner n ?s' i (j + 1)"
      using True by (subst sort_inner.simps) simp
    have il: "i < length s" and jl: "j < length s" using True "1.prems" by simp_all
    have len: "n = length ?s'" using "1.prems"(1) by simp
    have ms: "mset ?s' = mset s"
      using il jl by (simp add: mset_swap)
    have tk: "take i ?s' = take i s"
      using "1.prems"(2) by simp
    have inv: "\<forall>k. i < k \<and> k < j + 1 \<longrightarrow> snd (?s' ! i) \<le> snd (?s' ! k)"
    proof (intro allI impI)
      fix k assume k: "i < k \<and> k < j + 1"
      show "snd (?s' ! i) \<le> snd (?s' ! k)"
      proof (cases "snd (s ! j) < snd (s ! i)")
        case sw: True
        then have si: "?s' ! i = s ! j" using il jl "1.prems"(2) by simp
        show ?thesis
        proof (cases "k = j")
          case True
          with sw si jl il show ?thesis by simp
        next
          case False
          with k have kj: "k < j" by simp
          with k sw il jl have "?s' ! k = s ! k" by simp
          moreover from "1.prems"(3) k kj have "snd (s ! i) \<le> snd (s ! k)" by simp
          ultimately show ?thesis using si sw by simp
        qed
      next
        case ns: False
        show ?thesis
        proof (cases "k = j")
          case True
          with ns show ?thesis by simp
        next
          case False
          with k have "k < j" by simp
          with "1.prems"(3) k ns show ?thesis by simp
        qed
      qed
    qed
    have i2: "i < j + 1" using "1.prems"(2) by simp
    from "1.IH" [OF True len i2 inv] ms tk show ?thesis
      unfolding unfold by simp
  qed
qed

lemma in_set_drop_nth:
  assumes "b \<in> set (drop m xs)"
  shows "\<exists>k. m \<le> k \<and> k < length xs \<and> b = xs ! k"
proof -
  from assms obtain j where j: "j < length (drop m xs)" "drop m xs ! j = b"
    by (auto simp: in_set_conv_nth)
  then have "m + j < length xs" by simp
  moreover from j have "b = xs ! (m + j)" by simp
  ultimately show ?thesis by (intro exI [of _ "m + j"]) simp
qed

lemma sort_outer_invariant:
  assumes "n = length s"
    and "sorted (map snd (take i s))"
    and "\<forall>a\<in>set (take i s). \<forall>b\<in>set (drop i s). snd a \<le> snd b"
  shows "mset (sort_outer n s i) = mset s \<and> sorted (map snd (sort_outer n s i))"
  using assms
proof (induction n s i rule: sort_outer.induct)
  case (1 n s i)
  show ?case
  proof (cases "i + 1 < n")
    case False
    then have e: "sort_outer n s i = s" by (subst sort_outer.simps) simp
    from False "1.prems"(1) have "length (drop i s) \<le> 1" by simp
    then have "sorted (map snd (drop i s))"
      by (cases "drop i s") (auto simp: Suc_le_eq)
    with "1.prems"(2,3) have "sorted (map snd (take i s @ drop i s))"
      by (simp only: map_append sorted_append) auto
    with e show ?thesis by simp
  next
    case True
    let ?r = "sort_inner n s i (i + 1)"
    have unfold: "sort_outer n s i = sort_outer n ?r (i + 1)"
      using True by (subst sort_outer.simps) simp
    note r = sort_inner_invariant [of n s i "i + 1", OF "1.prems"(1)]
    have rm: "mset ?r = mset s" and rt: "take i ?r = take i s"
      and rmin: "\<forall>k. i < k \<and> k < n \<longrightarrow> snd (?r ! i) \<le> snd (?r ! k)"
      using r by simp_all
    have len: "n = length ?r" using "1.prems"(1) by (simp add: sort_inner_length)
    have il: "i < length ?r" using True len by simp
    have "mset (take i ?r) + mset (drop i ?r) = mset (take i s) + mset (drop i s)"
      using rm by (simp only: union_code append_take_drop_id)
    then have rd: "mset (drop i ?r) = mset (drop i s)" using rt by simp
    then have rds: "set (drop i ?r) = set (drop i s)" by (rule mset_eq_setD)
    have "drop i ?r = ?r ! i # drop (Suc i) ?r"
      using il by (rule Cons_nth_drop_Suc [symmetric])
    then have "?r ! i \<in> set (drop i ?r)" by simp
    with rds have ri: "?r ! i \<in> set (drop i s)" by simp
    have tk: "take (i + 1) ?r = take i s @ [?r ! i]"
      using il rt by (simp add: take_Suc_conv_app_nth)
    have a: "sorted (map snd (take (i + 1) ?r))"
      unfolding tk using "1.prems"(2,3) ri by (auto simp: sorted_append)
    have "set (drop (i + 1) ?r) \<subseteq> set (drop i ?r)"
      by (rule set_drop_subset_set_drop) simp
    with rds have sub: "set (drop (i + 1) ?r) \<subseteq> set (drop i s)" by simp
    have b: "\<forall>a\<in>set (take (i + 1) ?r). \<forall>b\<in>set (drop (i + 1) ?r). snd a \<le> snd b"
    proof (intro ballI)
      fix a b assume a: "a \<in> set (take (i + 1) ?r)" and b: "b \<in> set (drop (i + 1) ?r)"
      from in_set_drop_nth [OF b] obtain k where k: "i + 1 \<le> k" "k < length ?r" "b = ?r ! k"
        by blast
      from a tk have "a \<in> set (take i s) \<or> a = ?r ! i" by auto
      then show "snd a \<le> snd b"
      proof
        assume "a \<in> set (take i s)"
        with "1.prems"(3) b sub show ?thesis by blast
      next
        assume "a = ?r ! i"
        with rmin k len show ?thesis by simp
      qed
    qed
    from "1.IH" [OF True len a b] rm show ?thesis
      unfolding unfold by simp
  qed
qed

lemma sort_outer_sorted:
  "mset (sort_outer (length s) s 0) = mset s \<and> sorted (map snd (sort_outer (length s) s 0))"
  by (rule sort_outer_invariant) simp_all

lemma sort_outer_length: "length (sort_outer (length s) s 0) = length s"
  using sort_outer_sorted [of s] by (metis size_mset)

lemma take_suggestCount:
  "take (if length cs > 5 then 5 else length cs) (sort_outer (length cs) cs 0) =
     take 5 (sort_outer (length cs) cs 0)"
  by (simp add: sort_outer_length)

lemma GetSuggestions_Some:
  assumes "SpellChecker_GetSuggestions h sc (Some w) = Some res"
  shows "res = map (\<lambda>s. strcpy (fst s))
     (take 5 (sort_outer (length (fst (collect_suggestions (snd (alloc h)) w (words (mainDictionary sc)) [])))
        (fst (collect_suggestions (snd (alloc h)) w (words (mainDictionary sc)) [])) 0))"
proof -
  let ?c = "collect_suggestions (snd (alloc h)) w (words (mainDictionary sc)) []"
  from assms have "copy_suggestions (snd (alloc (snd ?c)))
      (take (if length (fst ?c) > 5 then 5 else length (fst ?c)) (sort_outer (length (fst ?c)) (fst ?c) 0)) =
      Some res"
    by (simp add: SpellChecker_GetSuggestions_def Let_def split: if_splits)
  then show ?thesis
    by (simp only: take_suggestCount) (rule copy_suggestions_Some)
qed

lemma GetSuggestions_granted:
  assumes "set h \<subseteq> {True}"
  shows "SpellChecker_GetSuggestions h sc (Some w) =
     Some (map (\<lambda>s. strcpy (fst s))
       (take 5 (sort_outer (length (take 10 (candidates w (words (mainDictionary sc)))))
          (take 10 (candidates w (words (mainDictionary sc)))) 0)))"
proof -
  let ?cs = "take 10 (candidates w (words (mainDictionary sc)))"
  let ?c = "collect_suggestions (snd (alloc h)) w (words (mainDictionary sc)) []"
  note a = alloc_granted [OF assms]
  have c: "fst ?c = ?cs" "set (snd ?c) \<subseteq> {True}"
    using collect_suggestions_granted [of "snd (alloc h)" "[]" w "words (mainDictionary sc)"] a
    by simp_all
  note a1 = alloc_granted [OF c(2)]
  have "SpellChecker_GetSuggestions h sc (Some w) =
      copy_suggestions (snd (alloc (snd ?c)))
        (take (if length (fst ?c) > 5 then 5 else length (fst ?c))
           (sort_outer (length (fst ?c)) (fst ?c) 0))"
    using a a1 by (simp add: SpellChecker_GetSuggestions_def Let_def split del: if_split)
  also have "\<dots> = copy_suggestions (snd (alloc (snd ?c))) (take 5 (sort_outer (length ?cs) ?cs 0))"
    by (simp only: take_suggestCount c(1))
  also have "\<dots> = Some (map (\<lambda>s. strcpy (fst s)) (take 5 (sort_outer (length ?cs) ?cs 0)))"
    using a1 by (intro copy_suggestions_granted) simp
  finally show ?thesis .
qed

lemma candidates_distance:
  "s \<in> set (candidates w ws) \<Longrightarrow>
     snd s = int (edit_distance (c_str w) (c_str (fst s))) \<and>
     0 < edit_distance (c_str w) (c_str (fst s)) \<and> edit_distance (c_str w) (c_str (fst s)) \<le> 2"
  by (auto simp: candidates_def)

lemma GetSuggestions_elements:
  assumes "SpellChecker_GetSuggestions h sc (Some w) = Some res"
  shows "\<exists>ss. res = map (\<lambda>s. strcpy (fst s)) (take 5 ss) \<and> sorted (map snd ss) \<and>
     length ss \<le> 10 \<and> set ss \<subseteq> set (candidates w (words (mainDictionary sc)))"
proof -
  let ?cs = "fst (collect_suggestions (snd (alloc h)) w (words (mainDictionary sc)) [])"
  let ?ss = "sort_outer (length ?cs) ?cs 0"
  note c = collect_suggestions_any [of "[]" "snd (alloc h)" w "words (mainDictionary sc)"]
  note s = sort_outer_sorted [of ?cs]
  from s have "set ?ss = set ?cs" by (metis set_mset_mset)
  with c have "set ?ss \<subseteq> set (candidates w (words (mainDictionary sc)))" by simp
  moreover have "length ?ss \<le> 10" using c by (simp add: sort_outer_length)
  ultimately show ?thesis
    using GetSuggestions_Some [OF assms] s by blast
qed

section \<open>What the suggestions are\<close>

lemma c_str_idem: "c_str (c_str s) = c_str s"
  by (simp add: c_str_def)

text \<open>
  C5: in a run whose allocations are granted \<open>SpellChecker_GetSuggestions\<close> returns a
  sequence. Whatever the allocations do, a sequence that it returns has at most 5
  entries, and every entry is at edit distance 1 or 2 from the input word, so never at
  distance 0 and never the input word itself.
\<close>

theorem GetSuggestions_bounds:
  "(\<exists>r. SpellChecker_GetSuggestions (replicate n True) sc (Some w) = Some r) \<and>
   (SpellChecker_GetSuggestions h sc (Some w) = Some res \<longrightarrow>
      length res \<le> 5 \<and>
      (\<forall>c\<in>set res. 0 < edit_distance (c_str w) c \<and> edit_distance (c_str w) c \<le> 2 \<and>
         c \<noteq> c_str w \<and> c \<noteq> w))"
proof -
  have granted: "set (replicate n True) \<subseteq> {True}" by auto
  have a: "\<exists>r. SpellChecker_GetSuggestions (replicate n True) sc (Some w) = Some r"
    using GetSuggestions_granted [OF granted, of sc w] by blast
  have b: "SpellChecker_GetSuggestions h sc (Some w) = Some res \<longrightarrow>
      length res \<le> 5 \<and>
      (\<forall>c\<in>set res. 0 < edit_distance (c_str w) c \<and> edit_distance (c_str w) c \<le> 2 \<and>
         c \<noteq> c_str w \<and> c \<noteq> w)"
  proof
    assume "SpellChecker_GetSuggestions h sc (Some w) = Some res"
    from GetSuggestions_elements [OF this] obtain ss
      where res: "res = map (\<lambda>s. strcpy (fst s)) (take 5 ss)"
        and sub: "set ss \<subseteq> set (candidates w (words (mainDictionary sc)))"
      by blast
    have len: "length res \<le> 5" by (simp add: res)
    have el: "0 < edit_distance (c_str w) c \<and> edit_distance (c_str w) c \<le> 2 \<and>
         c \<noteq> c_str w \<and> c \<noteq> w" if "c \<in> set res" for c
    proof -
      from that res obtain s where s: "s \<in> set (take 5 ss)" "c = c_str (fst s)"
        by (auto simp: strcpy_def)
      from s(1) sub have "s \<in> set (candidates w (words (mainDictionary sc)))"
        by (auto dest: in_set_takeD)
      from candidates_distance [OF this] s(2)
      have d: "0 < edit_distance (c_str w) c" "edit_distance (c_str w) c \<le> 2" by simp_all
      from d(1) have ne: "c \<noteq> c_str w"
        using edit_distance_zero [of "c_str w" c] by auto
      have "c \<noteq> w"
      proof
        assume "c = w"
        then have "c_str w = c_str c" by simp
        also have "\<dots> = c" by (simp add: s(2) c_str_idem)
        finally show False using ne by simp
      qed
      with d ne show ?thesis by simp
    qed
    from len el show "length res \<le> 5 \<and>
      (\<forall>c\<in>set res. 0 < edit_distance (c_str w) c \<and> edit_distance (c_str w) c \<le> 2 \<and>
         c \<noteq> c_str w \<and> c \<noteq> w)"
      by blast
  qed
  show ?thesis by (rule conjI [OF a b])
qed

lemma suggestions_for_cat:
  "SpellChecker_GetSuggestions [] (engine [''bar'', ''bay'', ''cab'', ''cat''] [] []) (Some ''cat'') =
     Some [''cab'', ''bay'', ''bar'']"
  by code_simp

theorem GetSuggestions_bounds_witness:
  "length [''cab'', ''bay'', ''bar''] \<le> 5 \<and>
   0 < edit_distance (c_str ''cat'') ''bay'' \<and> edit_distance (c_str ''cat'') ''bay'' \<le> 2 \<and>
   ''bay'' \<noteq> ''cat''"
proof -
  note t = GetSuggestions_bounds [of 0 "engine [''bar'', ''bay'', ''cab'', ''cat''] [] []"
      "''cat''" "[]" "[''cab'', ''bay'', ''bar'']", THEN conjunct2, THEN mp, OF suggestions_for_cat]
  have "''bay'' \<in> set [''cab'', ''bay'', ''bar'']" by simp
  from t [THEN conjunct2, THEN bspec, OF this] t [THEN conjunct1] show ?thesis by simp
qed

lemma sorted_distances:
  assumes "sorted (map snd ss)" and "\<forall>s\<in>set ss. snd s = int (f s)"
  shows "sorted (map f ss)"
proof -
  have "map snd ss = map (\<lambda>s. int (f s)) ss" using assms(2) by simp
  with assms(1) have "sorted (map (\<lambda>s. int (f s)) ss)" by simp
  then show ?thesis by (simp add: sorted_map)
qed

text \<open>
  C6 (as amended): a sequence returned by \<open>SpellChecker_GetSuggestions\<close> is in
  ascending order of edit distance to the input word. The sort comes before the
  truncation: when the allocations are granted, the result is made of the first 5
  entries of a rearrangement, sorted by distance, of the candidates collected (the first
  10 of the dictionary). Nothing is stated on the order of candidates at equal distance.
\<close>

theorem GetSuggestions_sorted:
  "(SpellChecker_GetSuggestions h sc (Some w) = Some res \<longrightarrow>
      sorted (map (edit_distance (c_str w)) res)) \<and>
   (\<exists>ss. mset ss = mset (take 10 (candidates w (words (mainDictionary sc)))) \<and>
      sorted (map snd ss) \<and>
      SpellChecker_GetSuggestions (replicate n True) sc (Some w) =
        Some (map (\<lambda>s. strcpy (fst s)) (take 5 ss)))"
proof -
  have a: "SpellChecker_GetSuggestions h sc (Some w) = Some res \<longrightarrow>
      sorted (map (edit_distance (c_str w)) res)"
  proof
    assume "SpellChecker_GetSuggestions h sc (Some w) = Some res"
    from GetSuggestions_elements [OF this] obtain ss
      where res: "res = map (\<lambda>s. strcpy (fst s)) (take 5 ss)"
        and so: "sorted (map snd ss)"
        and sub: "set ss \<subseteq> set (candidates w (words (mainDictionary sc)))"
      by blast
    have "sorted (map snd (take 5 ss))"
      using so by (simp only: take_map [symmetric] sorted_wrt_take)
    moreover have "\<forall>s\<in>set (take 5 ss). snd s = int (edit_distance (c_str w) (c_str (fst s)))"
      using sub candidates_distance by (blast dest: in_set_takeD)
    ultimately have "sorted (map (\<lambda>s. edit_distance (c_str w) (c_str (fst s))) (take 5 ss))"
      by (rule sorted_distances)
    then show "sorted (map (edit_distance (c_str w)) res)"
      by (simp add: res strcpy_def comp_def)
  qed
  have granted: "set (replicate n True) \<subseteq> {True}" by auto
  let ?cs = "take 10 (candidates w (words (mainDictionary sc)))"
  have b: "\<exists>ss. mset ss = mset ?cs \<and> sorted (map snd ss) \<and>
      SpellChecker_GetSuggestions (replicate n True) sc (Some w) =
        Some (map (\<lambda>s. strcpy (fst s)) (take 5 ss))"
    using sort_outer_sorted [of ?cs] GetSuggestions_granted [OF granted, of sc w]
    by (intro exI [of _ "sort_outer (length ?cs) ?cs 0"]) simp
  show ?thesis by (rule conjI [OF a b])
qed

theorem GetSuggestions_sorted_witness:
  "sorted (map (edit_distance (c_str ''cat'')) [''cab'', ''bay'', ''bar''])"
  by (rule GetSuggestions_sorted [of "[]" "engine [''bar'', ''bay'', ''cab'', ''cat''] [] []"
      "''cat''" "[''cab'', ''bay'', ''bar'']", THEN conjunct1, THEN mp, OF suggestions_for_cat])

theorem GetSuggestions_sorted_counterexample:
  "candidates ''cat'' [''bar'', ''bay'', ''cab''] = [(''bar'', 2), (''bay'', 2), (''cab'', 1)] \<and>
   SpellChecker_GetSuggestions [] (engine [''bar'', ''bay'', ''cab''] [] []) (Some ''cat'') =
     Some [''cab'', ''bay'', ''bar'']"
  by code_simp

lemma candidates_append: "candidates w (ws @ later) = candidates w ws @ candidates w later"
  by (simp add: candidates_def)

lemma suggestions_for_zz:
  "SpellChecker_GetSuggestions []
     (engine [''a'', ''b'', ''c'', ''d'', ''e'', ''f'', ''g'', ''h'', ''i'', ''j'', ''z''] [] [])
     (Some ''zz'') =
   Some [''a'', ''b'', ''c'', ''d'', ''e'']"
  by code_simp

lemma distance_zz_z: "edit_distance ''zz'' ''z'' = 1"
  by code_simp

lemma candidates_zz:
  "10 \<le> length (candidates ''zz'' [''a'', ''b'', ''c'', ''d'', ''e'', ''f'', ''g'', ''h'', ''i'', ''j''])"
  by code_simp

text \<open>
  C10: when the allocations are granted, the suggestions are computed from the first 10
  candidates of the main dictionary, in its current order, and from nothing else: once
  a list of words holds 10 candidates, the words that follow it in the dictionary do not
  change the result. So in the dictionary \<open>a\<close>, ..., \<open>j\<close>, \<open>z\<close> the word \<open>z\<close>, at
  distance 1 from \<open>zz\<close>, is not among the suggestions for \<open>zz\<close>.
\<close>

theorem GetSuggestions_scan_cap:
  "SpellChecker_GetSuggestions (replicate n True) sc (Some w) =
     Some (map (\<lambda>s. strcpy (fst s))
       (take 5 (sort_outer (length (take 10 (candidates w (words (mainDictionary sc)))))
          (take 10 (candidates w (words (mainDictionary sc)))) 0))) \<and>
   (10 \<le> length (candidates w ws) \<longrightarrow>
      SpellChecker_GetSuggestions (replicate n True)
        (sc\<lparr>mainDictionary := \<lparr>words = ws @ later, capacity = cap, block = blk\<rparr>\<rparr>) (Some w) =
      SpellChecker_GetSuggestions (replicate n True)
        (sc\<lparr>mainDictionary := \<lparr>words = ws, capacity = cap, block = blk\<rparr>\<rparr>) (Some w)) \<and>
   SpellChecker_GetSuggestions []
     (engine [''a'', ''b'', ''c'', ''d'', ''e'', ''f'', ''g'', ''h'', ''i'', ''j'', ''z''] [] [])
     (Some ''zz'') = Some [''a'', ''b'', ''c'', ''d'', ''e''] \<and>
   edit_distance ''zz'' ''z'' = 1"
proof -
  have granted: "set (replicate n True) \<subseteq> {True}" by auto
  note g = GetSuggestions_granted [OF granted]
  have b: "10 \<le> length (candidates w ws) \<longrightarrow>
      SpellChecker_GetSuggestions (replicate n True)
        (sc\<lparr>mainDictionary := \<lparr>words = ws @ later, capacity = cap, block = blk\<rparr>\<rparr>) (Some w) =
      SpellChecker_GetSuggestions (replicate n True)
        (sc\<lparr>mainDictionary := \<lparr>words = ws, capacity = cap, block = blk\<rparr>\<rparr>) (Some w)"
  proof
    assume "10 \<le> length (candidates w ws)"
    then have "take 10 (candidates w (ws @ later)) = take 10 (candidates w ws)"
      by (simp add: candidates_append)
    then show "SpellChecker_GetSuggestions (replicate n True)
        (sc\<lparr>mainDictionary := \<lparr>words = ws @ later, capacity = cap, block = blk\<rparr>\<rparr>) (Some w) =
      SpellChecker_GetSuggestions (replicate n True)
        (sc\<lparr>mainDictionary := \<lparr>words = ws, capacity = cap, block = blk\<rparr>\<rparr>) (Some w)"
      by (simp add: g)
  qed
  show ?thesis
    by (rule conjI [OF g conjI [OF b conjI [OF suggestions_for_zz distance_zz_z]]])
qed

theorem GetSuggestions_scan_cap_witness:
  "SpellChecker_GetSuggestions (replicate 0 True)
     (engine [] [] []
        \<lparr>mainDictionary := \<lparr>words = [''a'', ''b'', ''c'', ''d'', ''e'', ''f'', ''g'', ''h'', ''i'', ''j''] @ [''z''],
           capacity = 10000, block = 10000\<rparr>\<rparr>) (Some ''zz'') =
   SpellChecker_GetSuggestions (replicate 0 True)
     (engine [] [] []
        \<lparr>mainDictionary := \<lparr>words = [''a'', ''b'', ''c'', ''d'', ''e'', ''f'', ''g'', ''h'', ''i'', ''j''],
           capacity = 10000, block = 10000\<rparr>\<rparr>) (Some ''zz'')"
  by (rule GetSuggestions_scan_cap [THEN conjunct2, THEN conjunct1, THEN mp, OF candidates_zz])

section \<open>The invariants of the engine\<close>

text \<open>
  \<open>SpellChecker_Create\<close> returns an engine whose word sets are sorted and whose four
  arrays are backed by their blocks.
\<close>

lemma Create_sorted: "SpellChecker_Create h = Some sc \<Longrightarrow> engine_sorted sc"
  by (auto simp: SpellChecker_Create_def Let_def engine_sorted_def dict_sorted_Nil
      split: if_splits)

lemma Create_backed:
  "SpellChecker_Create h = Some sc \<Longrightarrow>
     dict_backed (mainDictionary sc) \<and> dict_backed (userDictionary sc) \<and>
     dict_backed (ignoredWords sc) \<and> list_backed (misspelled sc)"
  by (auto simp: SpellChecker_Create_def Let_def dict_backed_def list_backed_def dict_count_def
      split: if_splits)

lemma Create_granted: "SpellChecker_Create (replicate n True) = Some (engine [] [] [])"
proof -
  have g: "fst (alloc h) \<and> set (snd (alloc h)) \<subseteq> {True}" if "set h \<subseteq> {True}" for h
    using that by (rule alloc_granted)
  have "set (replicate n True) \<subseteq> {True}" by auto
  note a0 = g [OF this]
  note a1 = g [OF a0 [THEN conjunct2]]
  note a2 = g [OF a1 [THEN conjunct2]]
  note a3 = g [OF a2 [THEN conjunct2]]
  note a4 = g [OF a3 [THEN conjunct2]]
  from a0 a1 a2 a3 a4 show ?thesis
    by (simp add: SpellChecker_Create_def Let_def engine_def)
qed

text \<open>Every operation that is defined keeps the word sets sorted.\<close>

lemma LoadDictionary_sorted:
  assumes "engine_sorted sc" and "SpellChecker_LoadDictionary fs h sc filePath = Some r"
    and "fst r"
  shows "engine_sorted (snd r)"
  using assms
  by (auto simp: SpellChecker_LoadDictionary_def Let_def engine_sorted_def sort_dictionary_sorted
      split: option.splits if_splits)

lemma LoadUserDictionary_sorted:
  assumes "engine_sorted sc" and "SpellChecker_LoadUserDictionary fs h sc filePath = Some r"
    and "fst r"
  shows "engine_sorted (snd r)"
  using assms
  by (auto simp: SpellChecker_LoadUserDictionary_def Let_def engine_sorted_def sort_dictionary_sorted
      split: option.splits if_splits)

lemma store_sorted:
  assumes "dict_sorted (words dict)" and "store h' (fst (snd (grow h dict))) w = Some st"
  shows "dict_sorted (words (if fst st then sort_dictionary (fst (snd st)) else fst (snd st)))"
  using assms(1) store_Some(1) [OF assms(2)]
  by (simp add: sort_dictionary_sorted grow_words)

lemma AddToUserDictionary_engine_sorted:
  assumes "engine_sorted sc" and "SpellChecker_AddToUserDictionary h sc wp = Some sc'"
  shows "engine_sorted sc'"
proof (cases wp)
  case None
  with assms show ?thesis by (simp add: SpellChecker_AddToUserDictionary_def)
next
  case (Some w)
  let ?g = "grow h (userDictionary sc)"
  show ?thesis
  proof (cases "BinarySearchDictionary (userDictionary sc) w \<or> \<not> fst ?g")
    case True
    with assms Some show ?thesis
      by (auto simp: SpellChecker_AddToUserDictionary_def Let_def engine_sorted_def grow_words
          split: if_splits)
  next
    case False
    with assms(2) Some obtain st where st: "store (snd (snd ?g)) (fst (snd ?g)) w = Some st"
      by (auto simp: SpellChecker_AddToUserDictionary_def Let_def split: option.splits)
    from assms(2) Some False st
    have "sc' = sc\<lparr>userDictionary :=
        (if fst st then sort_dictionary (fst (snd st)) else fst (snd st))\<rparr>"
      by (auto simp: SpellChecker_AddToUserDictionary_def Let_def)
    with assms(1) store_sorted [OF _ st] show ?thesis
      by (simp add: engine_sorted_def)
  qed
qed

lemma AddToIgnoreList_engine_sorted:
  assumes "engine_sorted sc" and "SpellChecker_AddToIgnoreList h sc wp = Some sc'"
  shows "engine_sorted sc'"
proof (cases wp)
  case None
  with assms show ?thesis by (simp add: SpellChecker_AddToIgnoreList_def)
next
  case (Some w)
  let ?g = "grow h (ignoredWords sc)"
  show ?thesis
  proof (cases "BinarySearchDictionary (ignoredWords sc) w \<or> \<not> fst ?g")
    case True
    with assms Some show ?thesis
      by (auto simp: SpellChecker_AddToIgnoreList_def Let_def engine_sorted_def grow_words
          split: if_splits)
  next
    case False
    with assms(2) Some obtain st where st: "store (snd (snd ?g)) (fst (snd ?g)) w = Some st"
      by (auto simp: SpellChecker_AddToIgnoreList_def Let_def split: option.splits)
    from assms(2) Some False st
    have "sc' = sc\<lparr>ignoredWords :=
        (if fst st then sort_dictionary (fst (snd st)) else fst (snd st))\<rparr>"
      by (auto simp: SpellChecker_AddToIgnoreList_def Let_def)
    with assms(1) store_sorted [OF _ st] show ?thesis
      by (simp add: engine_sorted_def)
  qed
qed

lemma ClearIgnoreList_engine_sorted:
  "engine_sorted sc \<Longrightarrow> engine_sorted (SpellChecker_ClearIgnoreList sc)"
  by (simp add: SpellChecker_ClearIgnoreList_def engine_sorted_def dict_sorted_Nil)

lemma Check_engine_sorted:
  assumes "engine_sorted sc" and "SpellChecker_Check h sc t = Some sc'"
  shows "engine_sorted sc'"
proof -
  have "engine_sorted (sc\<lparr>misspelled := m\<rparr>) = engine_sorted sc" for m
    by (simp add: engine_sorted_def)
  from this [of "misspelled sc'"] Check_frame_eq [OF assms(2)] assms(1)
  show ?thesis by simp
qed

end
